theory Spec2Isabelle
  imports Main "HOL-Library.AList" "HOL-Library.Sublist"
begin

section \<open>JavaScript values\<close>

text \<open>
  The values the connector and the transform handle are JSON-like JavaScript values.
  Numbers are restricted to integers (the version and count fields of the data model),
  strings are byte strings read as ASCII. An object is the list of its own enumerable
  properties in enumeration order, with pairwise distinct keys; the property names this
  program adds (\<open>_d\<close>, \<open>_rels\<close>, \<open>_props\<close>, \<open>__ds\<close>, \<open>__dsList\<close>) are not
  integer-like, so a new property goes to the end of the list. An array is its elements
  and, after them, the named properties it has been given (an array is an object too, and
  \<open>a.k = x\<close> gives it one). \<open>JUndefined\<close> is the value \<open>undefined\<close>; a property can
  hold it, which is different from the property being absent.
\<close>

datatype jsval =
    JUndefined
  | JNull
  | JBool bool
  | JNum int
  | JStr string
  | JArr "jsval list" "(string \<times> jsval) list"
  | JObj "(string \<times> jsval) list"

datatype error =
    Error string    \<comment> \<open>\<open>throw new Error(msg)\<close>\<close>
  | TypeError       \<comment> \<open>property access or assignment on a value that has none\<close>
  | SyntaxError     \<comment> \<open>\<open>JSON.parse\<close> of something that is not JSON text\<close>
  | ReferenceError  \<comment> \<open>a variable that is not declared\<close>

text \<open>\<open>!v\<close> is true exactly for the falsy values.\<close>

fun truthy :: "jsval \<Rightarrow> bool" where
  "truthy JUndefined = False"
| "truthy JNull = False"
| "truthy (JBool b) = b"
| "truthy (JNum n) = (n \<noteq> 0)"
| "truthy (JStr s) = (s \<noteq> [])"
| "truthy (JArr xs ps) = True"
| "truthy (JObj fs) = True"

text \<open>
  \<open>v.k\<close> for a property name \<open>k\<close> that is no built-in (not \<open>length\<close>, not an index, not a
  prototype method): \<open>undefined\<close> and \<open>null\<close> have no properties and the access throws; an
  object or an array yields the property or \<open>undefined\<close>; every other value yields
  \<open>undefined\<close>.
\<close>

fun get_prop :: "jsval \<Rightarrow> string \<Rightarrow> error + jsval" where
  "get_prop JUndefined k = Inl TypeError"
| "get_prop JNull k = Inl TypeError"
| "get_prop (JObj fs) k = Inr (case map_of fs k of None \<Rightarrow> JUndefined | Some v \<Rightarrow> v)"
| "get_prop (JArr xs ps) k = Inr (case map_of ps k of None \<Rightarrow> JUndefined | Some v \<Rightarrow> v)"
| "get_prop v k = Inr JUndefined"

text \<open>\<open>delete v.k\<close> on a value that is not \<open>undefined\<close> or \<open>null\<close>: removes the property of an
  object or an array and does nothing on anything else.\<close>

fun delete_prop :: "jsval \<Rightarrow> string \<Rightarrow> jsval" where
  "delete_prop (JObj fs) k = JObj (AList.delete k fs)"
| "delete_prop (JArr xs ps) k = JArr xs (AList.delete k ps)"
| "delete_prop v k = v"

text \<open>
  \<open>v.k = x\<close> in strict mode (the source files start with the directive): an object or an
  array gets the property, in place when it has one of that name and at the end otherwise;
  \<open>undefined\<close>, \<open>null\<close> and the primitives throw a TypeError.
\<close>

fun set_prop :: "jsval \<Rightarrow> string \<Rightarrow> jsval \<Rightarrow> error + jsval" where
  "set_prop (JObj fs) k x = Inr (JObj (AList.update k x fs))"
| "set_prop (JArr xs ps) k x = Inr (JArr xs (AList.update k x ps))"
| "set_prop v k x = Inl TypeError"

text \<open>\<open>v instanceof Array\<close>\<close>

fun instanceof_Array :: "jsval \<Rightarrow> bool" where
  "instanceof_Array (JArr xs ps) = True"
| "instanceof_Array v = False"

text \<open>
  \<open>JSON.parse(JSON.stringify(v))\<close>. Inside a value, \<open>stringify\<close> leaves out the properties
  that hold \<open>undefined\<close>, writes \<open>null\<close> for an \<open>undefined\<close> array element and writes the
  elements of an array only, not its named properties. At the top,
  \<open>JSON.stringify(undefined)\<close> is \<open>undefined\<close>, which \<open>JSON.parse\<close> reads as the text
  "undefined" and rejects with a SyntaxError.
\<close>

fun json_copy :: "jsval \<Rightarrow> jsval" where
  "json_copy (JArr xs ps) =
     JArr (map (\<lambda>x. if x = JUndefined then JNull else json_copy x) xs) []"
| "json_copy (JObj fs) =
     JObj (map (\<lambda>(k, v). (k, json_copy v)) (filter (\<lambda>(k, v). v \<noteq> JUndefined) fs))"
| "json_copy v = v"

definition json_clone :: "jsval \<Rightarrow> error + jsval" where
  "json_clone v = (if v = JUndefined then Inl SyntaxError else Inr (json_copy v))"

text \<open>
  \<open>for (let k in v)\<close> enumerates the property names of an object in order; on the values
  that have no enumerable properties (\<open>undefined\<close>, \<open>null\<close>, numbers, booleans) the loop body
  never runs. Arrays and strings enumerate their indices as decimal strings, an array its
  named properties after them.
\<close>

fun digits_of :: "nat \<Rightarrow> string" where
  "digits_of n =
     (if n < 10 then [''0123456789'' ! n]
      else digits_of (n div 10) @ [''0123456789'' ! (n mod 10)])"

fun for_in_keys :: "jsval \<Rightarrow> string list" where
  "for_in_keys (JObj fs) = map fst fs"
| "for_in_keys (JArr xs ps) = map digits_of [0..<length xs] @ map fst ps"
| "for_in_keys (JStr s) = map digits_of [0..<length s]"
| "for_in_keys v = []"


section \<open>Strings\<close>

text \<open>\<open>String.prototype.toUpperCase\<close> on ASCII text: the letters a to z change, nothing else.\<close>

definition toUpperCase_char :: "char \<Rightarrow> char" where
  "toUpperCase_char c =
     (case map_of (zip ''abcdefghijklmnopqrstuvwxyz'' ''ABCDEFGHIJKLMNOPQRSTUVWXYZ'') c of
        Some u \<Rightarrow> u | None \<Rightarrow> c)"

definition toUpperCase :: "string \<Rightarrow> string" where
  "toUpperCase s = map toUpperCase_char s"

text \<open>
  \<open>s.split(sep)\<close> for a string separator: the pieces between the occurrences of \<open>sep\<close>
  found from left to right without overlap; the empty separator cuts between all characters.
  \<open>split_from sep acc s\<close> has read the piece \<open>acc\<close> so far and still has \<open>s\<close> to read.
\<close>

function split_from :: "string \<Rightarrow> string \<Rightarrow> string \<Rightarrow> string list" where
  "split_from sep acc [] = [acc]"
| "split_from sep acc (c # cs) =
     (if sep \<noteq> [] \<and> prefix sep (c # cs)
      then acc # split_from sep [] (drop (length sep - 1) cs)
      else split_from sep (acc @ [c]) cs)"
  by pat_completeness auto
termination
  by (relation "measure (\<lambda>(sep, acc, s). length s)") auto

definition js_split :: "string \<Rightarrow> string \<Rightarrow> string list" where
  "js_split s sep = (if sep = [] then map (\<lambda>c. [c]) s else split_from sep [] s)"


section \<open>The value transform\<close>

text \<open>
  \<open>transformValueForStorage\<close>. Every property access that can throw is a branch; after
  the copy the value is a tree of its own, so the deletions and the new object are
  computed on it as values.
\<close>

definition transformValueForStorage :: "jsval \<Rightarrow> error + jsval" where
  "transformValueForStorage v =
     (case json_clone v of
        Inl e \<Rightarrow> Inl e
      | Inr val \<Rightarrow>
          (case get_prop val ''_d'' of
             Inl e \<Rightarrow> Inl e
           | Inr data \<Rightarrow>
               let val = delete_prop val ''_d'' in
               if instanceof_Array data
               then Inr (JObj [(''__dsList'', data), (''__ds'', val)])
               else
                 (case get_prop data ''_rels'' of
                    Inl e \<Rightarrow> Inl e
                  | Inr rels \<Rightarrow>
                      let data = delete_prop data ''_rels'' in
                      Inr (JObj [(''_props'', data), (''_rels'', rels), (''__ds'', val)]))))"

text \<open>
  \<open>transformValueFromStorage\<close>. \<open>data._d\<close> and \<open>value._props\<close> are one object, so
  \<open>data._d._rels = value._rels\<close> is an assignment on the properties object, stored back
  under \<open>_d\<close>; \<open>value\<close> is not used after it, and the last \<open>delete\<close> changes nothing that
  is returned.
\<close>

definition transformValueFromStorage :: "jsval \<Rightarrow> error + jsval" where
  "transformValueFromStorage v =
     (case json_clone v of
        Inl e \<Rightarrow> Inl e
      | Inr val \<Rightarrow>
          if \<not> truthy val then Inr JUndefined
          else
            (case get_prop val ''__ds'' of
               Inl e \<Rightarrow> Inl e
             | Inr data \<Rightarrow>
                 let val = delete_prop val ''__ds'' in
                 (case get_prop val ''__dsList'' of
                    Inl e \<Rightarrow> Inl e
                  | Inr lst \<Rightarrow>
                      if instanceof_Array lst then set_prop data ''_d'' lst
                      else
                        (case get_prop val ''_props'' of
                           Inl e \<Rightarrow> Inl e
                         | Inr props \<Rightarrow>
                             (case set_prop data ''_d'' props of
                                Inl e \<Rightarrow> Inl e
                              | Inr data \<Rightarrow>
                                  if truthy props then
                                    (case get_prop val ''_rels'' of
                                       Inl e \<Rightarrow> Inl e
                                     | Inr rels \<Rightarrow>
                                         (case set_prop props ''_rels'' rels of
                                            Inl e \<Rightarrow> Inl e
                                          | Inr d \<Rightarrow> set_prop data ''_d'' d))
                                  else Inr data)))))"

text \<open>
  Deep equality as the repository's tests use it (chai's \<open>deep.equal\<close>): two arrays are
  equal when they have the same length and equal elements (an array is compared as the
  sequence of its elements), two objects when they have the same property names and equal
  values under each name, whatever the order; a property that holds \<open>undefined\<close> counts as
  a property.
\<close>

fun deep_equal :: "jsval \<Rightarrow> jsval \<Rightarrow> bool" where
  "deep_equal (JArr xs ps) (JArr ys qs) = list_all2 deep_equal xs ys"
| "deep_equal (JObj fs) (JObj gs) =
     (set (map fst fs) = set (map fst gs) \<and>
      (\<forall>(k, v) \<in> set fs. \<forall>(k', w) \<in> set gs. k = k' \<longrightarrow> deep_equal v w))"
| "deep_equal a b = (a = b)"

text \<open>A value that \<open>JSON.stringify\<close> writes completely: no \<open>undefined\<close> inside, no named
  property on an array, and the keys of every object distinct.\<close>

fun json_value :: "jsval \<Rightarrow> bool" where
  "json_value JUndefined = False"
| "json_value (JArr xs ps) = (ps = [] \<and> list_all json_value xs)"
| "json_value (JObj fs) = (distinct (map fst fs) \<and> (\<forall>(k, v) \<in> set fs. json_value v))"
| "json_value v = True"

text \<open>The data model's External Value: \<open>{ _v, _d }\<close> with \<open>_v\<close> an integer and \<open>_d\<close> either a
  list of scalars or an object of scalar properties with an optional \<open>_rels\<close>, a mapping from
  relation names to descriptors \<open>{ _v, _count }\<close>.\<close>

fun is_scalar :: "jsval \<Rightarrow> bool" where
  "is_scalar JNull = True"
| "is_scalar (JBool b) = True"
| "is_scalar (JNum n) = True"
| "is_scalar (JStr s) = True"
| "is_scalar v = False"

fun is_number :: "jsval \<Rightarrow> bool" where
  "is_number (JNum n) = True"
| "is_number v = False"

fun wf_descriptor :: "jsval \<Rightarrow> bool" where
  "wf_descriptor (JObj fs) =
     (distinct (map fst fs) \<and> set (map fst fs) = {''_v'', ''_count''} \<and>
      (\<forall>(k, v) \<in> set fs. is_number v))"
| "wf_descriptor v = False"

fun wf_rels :: "jsval \<Rightarrow> bool" where
  "wf_rels (JObj rs) = (distinct (map fst rs) \<and> (\<forall>(k, r) \<in> set rs. wf_descriptor r))"
| "wf_rels v = False"

fun wf_payload :: "jsval \<Rightarrow> bool" where
  "wf_payload (JArr xs ps) = (ps = [] \<and> list_all is_scalar xs)"
| "wf_payload (JObj ps) =
     (distinct (map fst ps) \<and>
      (\<forall>(k, v) \<in> set ps. if k = ''_rels'' then wf_rels v else is_scalar v))"
| "wf_payload v = False"

fun wf_external :: "jsval \<Rightarrow> bool" where
  "wf_external (JObj fs) =
     (distinct (map fst fs) \<and> set (map fst fs) = {''_v'', ''_d''} \<and>
      (\<forall>(k, v) \<in> set fs. if k = ''_d'' then wf_payload v else is_number v))"
| "wf_external v = False"


section \<open>The connector\<close>

record options =
  connectionString :: "string option"
  userName :: "string option"
  password :: "string option"
  defaultLabel :: "string option"
  splitChar :: "string option"

record connector =
  isReady :: bool
  name :: string
  version :: string
  c_defaultLabel :: string
  c_splitChar :: "string option"    \<comment> \<open>\<open>None\<close> is \<open>null\<close>\<close>

text \<open>What the connector does to the outside: the driver, its sessions and the callbacks.\<close>

datatype event =
    Driver string string string     \<comment> \<open>\<open>neo4j.driver(url, neo4j.auth.basic(user, password))\<close>\<close>
  | Session                         \<comment> \<open>\<open>this._db.session()\<close>\<close>
  | Run string jsval                \<comment> \<open>\<open>session.run(query, parameters)\<close>\<close>
  | Callback "jsval list"           \<comment> \<open>\<open>callback(...)\<close> with its arguments\<close>

text \<open>An option that is \<open>undefined\<close> or the empty string is falsy.\<close>

definition falsy_opt :: "string option \<Rightarrow> bool" where
  "falsy_opt x = (case x of None \<Rightarrow> True | Some s \<Rightarrow> s = [])"

text \<open>
  The constructor, with \<open>package.json\<close>'s name and version as parameters. It returns what it
  did to the outside before it returned or threw, and the connector or the exception.
\<close>

definition Connector :: "string \<Rightarrow> string \<Rightarrow> options \<Rightarrow> event list \<times> (error + connector)" where
  "Connector pckg_name pckg_version opts =
     (let this = \<lparr> isReady = False, name = pckg_name, version = pckg_version,
                   c_defaultLabel = (if falsy_opt (defaultLabel opts) then ''DS_SCHEMA''
                                     else the (defaultLabel opts)),
                   c_splitChar = (if falsy_opt (splitChar opts) then None else splitChar opts) \<rparr>
      in if falsy_opt (connectionString opts)
           then ([], Inl (Error (''Missing setting '' @ [CHR 0x27] @ ''connectionString'' @ [CHR 0x27])))
         else if falsy_opt (userName opts)
           then ([], Inl (Error (''Missing setting '' @ [CHR 0x27] @ ''user'' @ [CHR 0x27])))
         else if falsy_opt (password opts)
           then ([], Inl (Error (''Missing setting '' @ [CHR 0x27] @ ''password'' @ [CHR 0x27])))
         else ([Driver (the (connectionString opts)) (the (userName opts)) (the (password opts)),
                Session, Run ''return 1'' JUndefined],
               Inr this))"

text \<open>
  \<open>key.split(this._splitChar)\<close>: a separator that is \<open>null\<close> is converted to the string
  "null" (only \<open>undefined\<close> means "no separator").
\<close>

definition separator :: "connector \<Rightarrow> string" where
  "separator c = (case c_splitChar c of None \<Rightarrow> ''null'' | Some s \<Rightarrow> s)"

text \<open>The loop of \<open>_getSegments\<close>: the element at index \<open>i\<close> is kept when \<open>i % 2\<close> is
  non-zero and uppercased otherwise.\<close>

fun normalize_from :: "nat \<Rightarrow> string list \<Rightarrow> string list" where
  "normalize_from i [] = []"
| "normalize_from i (s # ss) =
     (if i mod 2 \<noteq> 0 then s else toUpperCase s) # normalize_from (Suc i) ss"

text \<open>\<open>_getSegments\<close>; \<open>None\<close> is the \<open>null\<close> it returns for a rejected key.\<close>

definition getSegments :: "connector \<Rightarrow> string \<Rightarrow> string list option" where
  "getSegments c key =
     (let segments = js_split key (separator c) in
      if (case segments of [] \<Rightarrow> False | s # _ \<Rightarrow> s = [] \<or> s = c_defaultLabel c) then None
      else
        let segments = normalize_from 0 segments in
        if length segments = 1 then Some [c_defaultLabel c @ '':'' @ segments ! 0]
        else Some segments)"

datatype action = SET | GET | DELETE

text \<open>\<open>segments[i]\<close> inside a template literal: a missing element prints as "undefined".\<close>

definition seg_text :: "string list \<Rightarrow> nat \<Rightarrow> string" where
  "seg_text segments i = (if i < length segments then segments ! i else ''undefined'')"

text \<open>The text one relation name adds to the query of a write.\<close>

definition rel_clause :: "string \<Rightarrow> string" where
  "rel_clause rel =
     (let label = toUpperCase rel in
      ''MERGE (n)-[:'' @ rel @ '']->('' @ label @ ''_m)<-[:__ds]-('' @ label @ ''_ds)'' @
      [CHR 0x0A] @ ''                  SET '' @ label @ ''_ds += $_rels.'' @ rel @ '' '')"

text \<open>
  \<open>_getQuery\<close>. \<open>values\<close> is \<open>JUndefined\<close> when the caller passes two arguments. Inside the
  \<open>if (values)\<close> branch \<open>values\<close> is truthy, so \<open>values._rels\<close> does not throw.
\<close>

definition getQuery :: "action \<Rightarrow> string list \<Rightarrow> jsval \<Rightarrow> string" where
  "getQuery act segments vals =
     (let label = seg_text segments 0 in
      if length segments < 3 then
        let id = seg_text segments 1 in
        (if act = SET then ''MERGE'' else ''MATCH'') @
        '' (ds:__DS { _key: '' @ [CHR 0x27] @ id @ [CHR 0x27] @ '' })-[ds_r:__ds]->(n:'' @ label @ '') '' @
        (if truthy vals then
           '' SET ds += $__ds '' @
           '' SET ds_r.schema = keys($_rels) '' @
           '' SET n += $_props '' @
           (let rels = (case get_prop vals ''_rels'' of Inl e \<Rightarrow> JUndefined | Inr r \<Rightarrow> r) in
            concat (map rel_clause (for_in_keys rels)))
         else
           ''MATCH (n)-[r]->(m) '' @
           ''WHERE type(r) IN ds_r.schema '' @
           (if act = DELETE then ''DETACH DELETE n, m''
            else ''RETURN { __ds: properties(ds),'' @ [CHR 0x0A] @
                 ''                            _props: properties(n),'' @ [CHR 0x0A] @
                 ''                            _rel_keys: collect(type(r)), '' @ [CHR 0x0A] @
                 ''                            _rel_vals: collect(properties(m)) } AS value''))
      else [])"


text \<open>
  The part of \<open>set\<close>, \<open>get\<close> and \<open>delete\<close> that runs before the call returns: the events up
  to the submission of the query, or the exception the call throws. What happens when the
  engine answers (the callback with the result, closing the session) is not part of it.
\<close>

definition connector_set :: "connector \<Rightarrow> string \<Rightarrow> jsval \<Rightarrow> error + event list" where
  "connector_set c key val =
     (case getSegments c key of
        None \<Rightarrow> Inr [Callback [JStr (''Invalid key '' @ key)]]
      | Some segments \<Rightarrow>
          (case transformValueForStorage val of
             Inl e \<Rightarrow> Inl e
           | Inr val' \<Rightarrow> Inr [Session, Run (getQuery SET segments val') val']))"

definition connector_get :: "connector \<Rightarrow> string \<Rightarrow> error + event list" where
  "connector_get c key =
     (case getSegments c key of
        None \<Rightarrow> Inr [Callback [JStr (''Invalid key '' @ key)]]
      | Some segments \<Rightarrow> Inr [Session, Run (getQuery GET segments JUndefined) JUndefined])"

definition connector_delete :: "connector \<Rightarrow> string \<Rightarrow> error + event list" where
  "connector_delete c key =
     (case getSegments c key of
        None \<Rightarrow> Inr [Callback [JStr (''Invalid key '' @ key)]]
      | Some segments \<Rightarrow> Inr [Session, Run (getQuery DELETE segments JUndefined) JUndefined])"


subsection \<open>The earlier revision in \<open>src/src/connector.js\<close>\<close>

text \<open>
  The repository holds a second revision of the connector, \<open>src/src/connector.js\<close>. Its
  \<open>_getSegments\<close> is the one above. Its \<open>_getQuery\<close> and its \<open>set\<close> are different: the
  value is not transformed, the query has one clause for each property name of the value,
  and the name of the key property, \<open>this._ds_key\<close>, is part of the text.
\<close>







section \<open>Example values\<close>

text \<open>A connector as the repository's tests configure it (separator \<open>/\<close>, default label
  left at \<open>DS_SCHEMA\<close>), and one built without a separator.\<close>

definition example_connector :: connector where
  "example_connector =
     \<lparr> isReady = False, name = ''deepstream.io-storage-neo4j'', version = ''0.0.1'',
       c_defaultLabel = ''DS_SCHEMA'', c_splitChar = Some ''/'' \<rparr>"

definition unset_connector :: connector where
  "unset_connector =
     \<lparr> isReady = False, name = ''deepstream.io-storage-neo4j'', version = ''0.0.1'',
       c_defaultLabel = ''DS_SCHEMA'', c_splitChar = None \<rparr>"

text \<open>The list-shaped value of the transform's tests and its storage form.\<close>

definition list_value :: jsval where
  "list_value = JObj [(''_d'', JArr [JStr ''John'', JStr ''Smith''] []), (''_v'', JNum 12)]"

definition list_stored :: jsval where
  "list_stored = JObj [(''__dsList'', JArr [JStr ''John'', JStr ''Smith''] []),
                       (''__ds'', JObj [(''_v'', JNum 12)])]"


text \<open>The options of the repository's tests.\<close>

definition test_options :: options where
  "test_options = \<lparr> connectionString = Some ''bolt://10.0.0.16'', userName = Some ''neo4j'',
                      password = Some ''neo4j'', defaultLabel = None, splitChar = Some ''/'' \<rparr>"





text \<open>The payload \<open>_d\<close> of an External Value, and whether a payload has a \<open>_rels\<close> property.\<close>

definition payload :: "jsval \<Rightarrow> jsval" where
  "payload v = (case get_prop v ''_d'' of Inl e \<Rightarrow> JUndefined | Inr d \<Rightarrow> d)"

fun has_rels :: "jsval \<Rightarrow> bool" where
  "has_rels (JObj ps) = (map_of ps ''_rels'' \<noteq> None)"
| "has_rels v = False"

text \<open>An External Value in object form without \<open>_rels\<close>, its storage form, and what the
  backward transform makes of the storage form; and the object-form value of the tests.\<close>

definition plain_value :: jsval where
  "plain_value = JObj [(''_v'', JNum 1), (''_d'', JObj [(''name'', JStr ''x'')])]"

definition plain_stored :: jsval where
  "plain_stored = JObj [(''_props'', JObj [(''name'', JStr ''x'')]), (''_rels'', JUndefined),
                        (''__ds'', JObj [(''_v'', JNum 1)])]"

definition plain_back :: jsval where
  "plain_back = JObj [(''_v'', JNum 1), (''_d'', JObj [(''name'', JStr ''x''), (''_rels'', JUndefined)])]"




section \<open>The value transform on a heap\<close>

text \<open>
  JavaScript objects and arrays are references: two variables can hold the same object, and
  an assignment through one is seen through the other. To say what the transform does to the
  structure its caller owns, the same two functions are written here over an explicit heap.
  A value is a primitive or the address of a cell; a cell is an object or an array whose
  entries are values again. The heap is the list of its cells, an address is an index into
  it, and a new cell goes to the end.
\<close>

type_synonym addr = nat

datatype hval = HUndefined | HNull | HBool bool | HNum int | HStr string | HRef addr

datatype cell = Obj "(string \<times> hval) list" | Arr "hval list" "(string \<times> hval) list"

type_synonym heap = "cell list"

fun cell_vals :: "cell \<Rightarrow> hval list" where
  "cell_vals (Obj fs) = map snd fs"
| "cell_vals (Arr vs ps) = vs @ map snd ps"

text \<open>
  \<open>JSON.stringify\<close> reads a value out of the heap as a tree: the properties of an
  object, the elements of an array (not its named properties). It throws a TypeError on a
  circular structure; a structure without a cycle is never nested deeper than the heap has
  cells, so the number of cells is the bound on the depth, and running out of it (or meeting
  an address outside the heap) is the failure.
\<close>

fun read_heap :: "nat \<Rightarrow> heap \<Rightarrow> hval \<Rightarrow> jsval option" where
  "read_heap n h HUndefined = Some JUndefined"
| "read_heap n h HNull = Some JNull"
| "read_heap n h (HBool b) = Some (JBool b)"
| "read_heap n h (HNum i) = Some (JNum i)"
| "read_heap n h (HStr s) = Some (JStr s)"
| "read_heap 0 h (HRef a) = None"
| "read_heap (Suc n) h (HRef a) =
     (if a < length h then
        (case h ! a of
           Arr vs ps \<Rightarrow> map_option (\<lambda>ts. JArr ts []) (those (map (read_heap n h) vs))
         | Obj fs \<Rightarrow>
             map_option JObj (those (map (\<lambda>(k, v). map_option (Pair k) (read_heap n h v)) fs)))
      else None)"

text \<open>\<open>JSON.parse\<close> builds a tree out of cells that did not exist before: the parts first,
  then the cell that holds them.\<close>

fun alloc :: "jsval \<Rightarrow> heap \<Rightarrow> hval \<times> heap"
  and alloc_list :: "jsval list \<Rightarrow> heap \<Rightarrow> hval list \<times> heap"
  and alloc_fields :: "(string \<times> jsval) list \<Rightarrow> heap \<Rightarrow> (string \<times> hval) list \<times> heap" where
  "alloc JUndefined h = (HUndefined, h)"
| "alloc JNull h = (HNull, h)"
| "alloc (JBool b) h = (HBool b, h)"
| "alloc (JNum i) h = (HNum i, h)"
| "alloc (JStr s) h = (HStr s, h)"
| "alloc (JArr xs ps) h =
     (case alloc_list xs h of (vs, h1) \<Rightarrow>
      case alloc_fields ps h1 of (gs, h2) \<Rightarrow> (HRef (length h2), h2 @ [Arr vs gs]))"
| "alloc (JObj fs) h = (case alloc_fields fs h of (gs, h') \<Rightarrow> (HRef (length h'), h' @ [Obj gs]))"
| "alloc_list [] h = ([], h)"
| "alloc_list (x # xs) h =
     (case alloc x h of (v, h1) \<Rightarrow> case alloc_list xs h1 of (vs, h2) \<Rightarrow> (v # vs, h2))"
| "alloc_fields [] h = ([], h)"
| "alloc_fields ((k, x) # fs) h =
     (case alloc x h of (v, h1) \<Rightarrow> case alloc_fields fs h1 of (gs, h2) \<Rightarrow> ((k, v) # gs, h2))"

text \<open>\<open>JSON.parse(JSON.stringify(v))\<close> on the heap: the new heap, and the copy or the
  exception.\<close>

definition h_clone :: "heap \<Rightarrow> hval \<Rightarrow> heap \<times> (error + hval)" where
  "h_clone h v =
     (case read_heap (length h) h v of
        None \<Rightarrow> (h, Inl TypeError)
      | Some t \<Rightarrow>
          (case json_clone t of
             Inl e \<Rightarrow> (h, Inl e)
           | Inr t' \<Rightarrow> (case alloc t' h of (v', h') \<Rightarrow> (h', Inr v'))))"

text \<open>The operations on values, with the heap they read or change.\<close>

fun h_truthy :: "hval \<Rightarrow> bool" where
  "h_truthy HUndefined = False"
| "h_truthy HNull = False"
| "h_truthy (HBool b) = b"
| "h_truthy (HNum n) = (n \<noteq> 0)"
| "h_truthy (HStr s) = (s \<noteq> [])"
| "h_truthy (HRef a) = True"

fun h_get_prop :: "heap \<Rightarrow> hval \<Rightarrow> string \<Rightarrow> error + hval" where
  "h_get_prop h HUndefined k = Inl TypeError"
| "h_get_prop h HNull k = Inl TypeError"
| "h_get_prop h (HRef a) k =
     Inr (case h ! a of
            Obj fs \<Rightarrow> (case map_of fs k of None \<Rightarrow> HUndefined | Some v \<Rightarrow> v)
          | Arr vs ps \<Rightarrow> (case map_of ps k of None \<Rightarrow> HUndefined | Some v \<Rightarrow> v))"
| "h_get_prop h v k = Inr HUndefined"

fun h_delete_prop :: "heap \<Rightarrow> hval \<Rightarrow> string \<Rightarrow> heap" where
  "h_delete_prop h (HRef a) k =
     (case h ! a of
        Obj fs \<Rightarrow> h[a := Obj (AList.delete k fs)]
      | Arr vs ps \<Rightarrow> h[a := Arr vs (AList.delete k ps)])"
| "h_delete_prop h v k = h"

fun h_set_prop :: "heap \<Rightarrow> hval \<Rightarrow> string \<Rightarrow> hval \<Rightarrow> error + heap" where
  "h_set_prop h (HRef a) k x =
     (case h ! a of
        Obj fs \<Rightarrow> Inr (h[a := Obj (AList.update k x fs)])
      | Arr vs ps \<Rightarrow> Inr (h[a := Arr vs (AList.update k x ps)]))"
| "h_set_prop h v k x = Inl TypeError"

fun h_instanceof_Array :: "heap \<Rightarrow> hval \<Rightarrow> bool" where
  "h_instanceof_Array h (HRef a) = (case h ! a of Arr vs ps \<Rightarrow> True | Obj fs \<Rightarrow> False)"
| "h_instanceof_Array h v = False"

text \<open>An object literal \<open>{ k1: v1, ... }\<close> is a new cell.\<close>

definition h_new_object :: "heap \<Rightarrow> (string \<times> hval) list \<Rightarrow> heap \<times> hval" where
  "h_new_object h fs = (h @ [Obj fs], HRef (length h))"

text \<open>\<open>transformValueForStorage\<close>, statement by statement; the result is the heap when the
  function returns or throws, and the returned value or the exception.\<close>

definition h_transformValueForStorage :: "heap \<Rightarrow> hval \<Rightarrow> heap \<times> (error + hval)" where
  "h_transformValueForStorage h v =
     (case h_clone h v of
        (h1, Inl e) \<Rightarrow> (h1, Inl e)
      | (h1, Inr val) \<Rightarrow>
          (case h_get_prop h1 val ''_d'' of
             Inl e \<Rightarrow> (h1, Inl e)
           | Inr data \<Rightarrow>
               let h2 = h_delete_prop h1 val ''_d'' in
               if h_instanceof_Array h2 data
               then (case h_new_object h2 [(''__dsList'', data), (''__ds'', val)] of
                       (h3, r) \<Rightarrow> (h3, Inr r))
               else
                 (case h_get_prop h2 data ''_rels'' of
                    Inl e \<Rightarrow> (h2, Inl e)
                  | Inr rels \<Rightarrow>
                      let h3 = h_delete_prop h2 data ''_rels'' in
                      (case h_new_object h3 [(''_props'', data), (''_rels'', rels), (''__ds'', val)] of
                         (h4, r) \<Rightarrow> (h4, Inr r)))))"

text \<open>\<open>transformValueFromStorage\<close>. \<open>data._d._rels = value._rels\<close> reads \<open>data._d\<close>, then
  \<open>value._rels\<close>, then assigns on the object read first.\<close>

definition h_transformValueFromStorage :: "heap \<Rightarrow> hval \<Rightarrow> heap \<times> (error + hval)" where
  "h_transformValueFromStorage h v =
     (case h_clone h v of
        (h1, Inl e) \<Rightarrow> (h1, Inl e)
      | (h1, Inr val) \<Rightarrow>
          if \<not> h_truthy val then (h1, Inr HUndefined)
          else
            (case h_get_prop h1 val ''__ds'' of
               Inl e \<Rightarrow> (h1, Inl e)
             | Inr data \<Rightarrow>
                 let h2 = h_delete_prop h1 val ''__ds'' in
                 (case h_get_prop h2 val ''__dsList'' of
                    Inl e \<Rightarrow> (h2, Inl e)
                  | Inr lst \<Rightarrow>
                      if h_instanceof_Array h2 lst
                      then (case h_set_prop h2 data ''_d'' lst of
                              Inl e \<Rightarrow> (h2, Inl e)
                            | Inr h3 \<Rightarrow> (h3, Inr data))
                      else
                        (case h_get_prop h2 val ''_props'' of
                           Inl e \<Rightarrow> (h2, Inl e)
                         | Inr props \<Rightarrow>
                             (case h_set_prop h2 data ''_d'' props of
                                Inl e \<Rightarrow> (h2, Inl e)
                              | Inr h3 \<Rightarrow>
                                  if h_truthy props then
                                    (case h_get_prop h3 data ''_d'' of
                                       Inl e \<Rightarrow> (h3, Inl e)
                                     | Inr target \<Rightarrow>
                                         (case h_get_prop h3 val ''_rels'' of
                                            Inl e \<Rightarrow> (h3, Inl e)
                                          | Inr rels \<Rightarrow>
                                              (case h_set_prop h3 target ''_rels'' rels of
                                                 Inl e \<Rightarrow> (h3, Inl e)
                                               | Inr h4 \<Rightarrow>
                                                   (h_delete_prop h4 val ''_rels'', Inr data))))
                                  else (h_delete_prop h3 val ''_rels'', Inr data))))))"

text \<open>The cells a value leads to: the cell it refers to, and the cells the entries of those
  cells refer to.\<close>

inductive_set reachable :: "heap \<Rightarrow> hval \<Rightarrow> addr set" for h :: heap and v :: hval where
  root: "v = HRef a \<Longrightarrow> a \<in> reachable h v"
| step: "a \<in> reachable h v \<Longrightarrow> a < length h \<Longrightarrow> HRef b \<in> set (cell_vals (h ! a)) \<Longrightarrow>
         b \<in> reachable h v"

text \<open>
  What holds of the heap \<open>h\<close> while a transform runs that started on the heap \<open>h0\<close>: the
  cells of \<open>h0\<close> are still there, unchanged, at the front, and the cells after them refer
  to cells after them only. A value is fresh when it is a primitive or refers to such a cell.
\<close>

definition fresh_val :: "heap \<Rightarrow> heap \<Rightarrow> hval \<Rightarrow> bool" where
  "fresh_val h0 h x \<longleftrightarrow> (\<forall>a. x = HRef a \<longrightarrow> length h0 \<le> a \<and> a < length h)"

definition extends :: "heap \<Rightarrow> heap \<Rightarrow> bool" where
  "extends h0 h \<longleftrightarrow>
     length h0 \<le> length h \<and> take (length h0) h = h0 \<and>
     (\<forall>a. length h0 \<le> a \<and> a < length h \<longrightarrow> (\<forall>x \<in> set (cell_vals (h ! a)). fresh_val h0 h x))"

text \<open>Three heaps to run the transforms on: one with the External Values of the tests, one
  with a storage value in list form, one with a storage value whose \<open>__ds\<close> is an array;
  and the heaps the transforms leave.\<close>

definition test_heap :: heap where
  "test_heap = [Obj [(''name'', HStr ''x'')], Obj [(''_v'', HNum 1), (''_d'', HRef 0)],
                Arr [HStr ''John''] [], Obj [(''_d'', HRef 2), (''_v'', HNum 12)] ]"

definition heap_after :: heap where
  "heap_after = test_heap @
     [Obj [(''name'', HStr ''x'')], Obj [(''_v'', HNum 1)],
      Obj [(''_props'', HRef 4), (''_rels'', HUndefined), (''__ds'', HRef 5)]]"

definition stored_heap :: heap where
  "stored_heap = [Arr [HStr ''John''] [], Obj [(''_v'', HNum 12)],
                  Obj [(''__dsList'', HRef 0), (''__ds'', HRef 1)]]"

definition stored_heap_after :: heap where
  "stored_heap_after = stored_heap @
     [Arr [HStr ''John''] [], Obj [(''_v'', HNum 12), (''_d'', HRef 3)], Obj [(''__dsList'', HRef 3)]]"

definition array_meta_heap :: heap where
  "array_meta_heap = [Arr [HStr ''John''] [], Arr [HNum 1] [],
                      Obj [(''__dsList'', HRef 0), (''__ds'', HRef 1)]]"

definition array_meta_heap_after :: heap where
  "array_meta_heap_after = array_meta_heap @
     [Arr [HStr ''John''] [], Arr [HNum 1] [(''_d'', HRef 3)], Obj [(''__dsList'', HRef 3)]]"


section \<open>The key segmenter\<close>

lemma length_normalize_from: "length (normalize_from i ss) = length ss"
  by (induction ss arbitrary: i) simp_all

lemma nth_normalize_from:
  "j < length ss \<Longrightarrow>
   normalize_from i ss ! j = (if (i + j) mod 2 \<noteq> 0 then ss ! j else toUpperCase (ss ! j))"
proof (induction ss arbitrary: i j)
  case Nil
  then show ?case by simp
next
  case (Cons s ss)
  show ?case
  proof (cases j)
    case 0
    then show ?thesis by simp
  next
    case (Suc j')
    with Cons.prems have "j' < length ss" by simp
    from Cons.IH [OF this, of "Suc i"] Suc show ?thesis by simp
  qed
qed

lemma getSegments_None_iff:
  "getSegments c key = None \<longleftrightarrow>
   (\<exists>s rest. js_split key (separator c) = s # rest \<and> (s = [] \<or> s = c_defaultLabel c))"
  by (auto simp: getSegments_def Let_def split: list.splits)

lemma getSegments_Some:
  assumes "getSegments c key = Some segs"
  shows "segs = (let parts = normalize_from 0 (js_split key (separator c)) in
                 if length parts = 1 then [c_defaultLabel c @ '':'' @ parts ! 0] else parts)"
  using assms by (auto simp: getSegments_def Let_def split: if_splits)

lemmas run_segments = getSegments_def example_connector_def unset_connector_def separator_def js_split_def
        toUpperCase_def toUpperCase_char_def

lemma split_from_no_occurrence:
  "\<not> sublist sep s \<Longrightarrow> split_from sep acc s = [acc @ s]"
proof (induction s arbitrary: acc)
  case Nil
  show ?case by simp
next
  case (Cons a s)
  from Cons.prems have both: "\<not> prefix sep (a # s) \<and> \<not> sublist sep s"
    by (simp only: sublist_Cons_right de_Morgan_disj simp_thms)
  from both have "\<not> sublist sep s" by (rule conjunct2)
  then have ih: "split_from sep (acc @ [a]) s = [(acc @ [a]) @ s]"
    by (rule Cons.IH)
  from both have np: "\<not> prefix sep (a # s)" by (rule conjunct1)
  have "split_from sep acc (a # s) = split_from sep (acc @ [a]) s"
    by (subst split_from.simps) (simp only: np simp_thms if_False)
  with ih show ?case by simp
qed

lemma forStorage_list_value: "transformValueForStorage list_value = Inr list_stored"
  by (simp add: transformValueForStorage_def list_value_def list_stored_def json_clone_def)


section \<open>Claims about the segmenter and the operations\<close>

text \<open>
  C2. For a key that passes validation, the segments are the split elements with every
  even-indexed element uppercased and every odd-indexed element unchanged; when the split
  has exactly one element, the result is the single segment made of the default label, a
  colon and that (uppercased) element. With separator \<open>/\<close> and default label \<open>DS_SCHEMA\<close>,
  \<open>a/b/c\<close> yields \<open>A, b, C\<close>; \<open>users/a\<close> yields \<open>USERS, a\<close>; \<open>bla\<close> yields \<open>DS_SCHEMA:BLA\<close>.
\<close>

theorem getSegments_alternates_case:
  "(getSegments c key = Some segs \<longrightarrow>
      (let parts = js_split key (separator c) in
         (length parts = 1 \<longrightarrow> segs = [c_defaultLabel c @ '':'' @ toUpperCase (parts ! 0)]) \<and>
         (length parts \<noteq> 1 \<longrightarrow>
            length segs = length parts \<and>
            (\<forall>i < length parts.
               segs ! i = (if even i then toUpperCase (parts ! i) else parts ! i))))) \<and>
   getSegments example_connector ''a/b/c'' = Some [''A'', ''b'', ''C''] \<and>
   getSegments example_connector ''users/a'' = Some [''USERS'', ''a''] \<and>
   getSegments example_connector ''bla'' = Some [''DS_SCHEMA:BLA'']"
proof -
  have general: "getSegments c key = Some segs \<longrightarrow>
      (let parts = js_split key (separator c) in
         (length parts = 1 \<longrightarrow> segs = [c_defaultLabel c @ '':'' @ toUpperCase (parts ! 0)]) \<and>
         (length parts \<noteq> 1 \<longrightarrow>
            length segs = length parts \<and>
            (\<forall>i < length parts.
               segs ! i = (if even i then toUpperCase (parts ! i) else parts ! i))))"
  proof
    assume a: "getSegments c key = Some segs"
    show "let parts = js_split key (separator c) in
         (length parts = 1 \<longrightarrow> segs = [c_defaultLabel c @ '':'' @ toUpperCase (parts ! 0)]) \<and>
         (length parts \<noteq> 1 \<longrightarrow>
            length segs = length parts \<and>
            (\<forall>i < length parts.
               segs ! i = (if even i then toUpperCase (parts ! i) else parts ! i)))"
      using getSegments_Some [OF a]
      by (auto simp: Let_def length_normalize_from nth_normalize_from even_iff_mod_2_eq_zero)
  qed
  have e1: "getSegments example_connector ''a/b/c'' = Some [''A'', ''b'', ''C'']"
    by (simp add: getSegments_def example_connector_def separator_def js_split_def
        toUpperCase_def toUpperCase_char_def)
  have e2: "getSegments example_connector ''users/a'' = Some [''USERS'', ''a'']"
    by (simp add: getSegments_def example_connector_def separator_def js_split_def
        toUpperCase_def toUpperCase_char_def)
  have e3: "getSegments example_connector ''bla'' = Some [''DS_SCHEMA:BLA'']"
    by (simp add: getSegments_def example_connector_def separator_def js_split_def
        toUpperCase_def toUpperCase_char_def)
  from general e1 e2 e3 show ?thesis by blast
qed

theorem getSegments_alternates_case_witness:
  "getSegments example_connector ''x/Yz/w/q'' = Some [''X'', ''Yz'', ''W'', ''q''] \<and>
   js_split ''x/Yz/w/q'' (separator example_connector) = [''x'', ''Yz'', ''w'', ''q''] \<and>
   getSegments example_connector ''bla'' = Some [''DS_SCHEMA:BLA''] \<and>
   js_split ''bla'' (separator example_connector) = [''bla'']"
proof -
  have s1: "js_split ''x/Yz/w/q'' (separator example_connector) = [''x'', ''Yz'', ''w'', ''q'']"
    by (simp add: example_connector_def separator_def js_split_def)
  have s2: "js_split ''bla'' (separator example_connector) = [''bla'']"
    by (simp add: example_connector_def separator_def js_split_def)
  have g1: "getSegments example_connector ''x/Yz/w/q'' = Some [''X'', ''Yz'', ''W'', ''q'']"
    by (simp add: getSegments_def example_connector_def separator_def js_split_def
        toUpperCase_def toUpperCase_char_def)
  have g2: "getSegments example_connector ''bla'' = Some [''DS_SCHEMA:BLA'']"
    using getSegments_alternates_case [of example_connector "''bla''" "[''DS_SCHEMA:BLA'']"]
    by simp
  from getSegments_alternates_case [of example_connector "''x/Yz/w/q''" "[''X'', ''Yz'', ''W'', ''q'']"] g1 s1
  have "length [''X'', ''Yz'', ''W'', ''q''] = length [''x'', ''Yz'', ''w'', ''q'']"
    by (simp add: Let_def)
  with s1 s2 g1 g2 show ?thesis by simp
qed

text \<open>
  C3. When the first split element of a key is empty or equals the default label,
  \<open>_getSegments\<close> returns \<open>null\<close>, and \<open>set\<close>, \<open>get\<close> and \<open>delete\<close> each do exactly one
  thing before they return: they call the callback with the string "Invalid key " followed
  by the key. No session is opened and no query is run.
\<close>

theorem invalid_key_reported:
  assumes "js_split key (separator c) = s # rest" and "s = [] \<or> s = c_defaultLabel c"
  shows "getSegments c key = None \<and>
         connector_set c key val = Inr [Callback [JStr (''Invalid key '' @ key)]] \<and>
         connector_get c key = Inr [Callback [JStr (''Invalid key '' @ key)]] \<and>
         connector_delete c key = Inr [Callback [JStr (''Invalid key '' @ key)]]"
proof -
  from assms have "getSegments c key = None"
    unfolding getSegments_None_iff by blast
  then show ?thesis
    by (simp add: connector_set_def connector_get_def connector_delete_def)
qed

theorem invalid_key_reported_witness:
  "js_split ''/a/b/c'' (separator example_connector) = [] # [''a'', ''b'', ''c''] \<and>
   getSegments example_connector ''/a/b/c'' = None \<and>
   connector_set example_connector ''/a/b/c'' (JObj []) = Inr [Callback [JStr ''Invalid key /a/b/c'']] \<and>
   connector_get example_connector ''/a/b/c'' = Inr [Callback [JStr ''Invalid key /a/b/c'']] \<and>
   connector_delete example_connector ''/a/b/c'' = Inr [Callback [JStr ''Invalid key /a/b/c'']] \<and>
   js_split ''DS_SCHEMA/a'' (separator example_connector) = c_defaultLabel example_connector # [''a''] \<and>
   connector_get example_connector ''DS_SCHEMA/a'' = Inr [Callback [JStr ''Invalid key DS_SCHEMA/a'']]"
proof -
  have h1: "js_split ''/a/b/c'' (separator example_connector) = [] # [''a'', ''b'', ''c'']"
    by (simp add: example_connector_def separator_def js_split_def)
  have h2: "js_split ''DS_SCHEMA/a'' (separator example_connector)
              = c_defaultLabel example_connector # [''a'']"
    by (simp add: example_connector_def separator_def js_split_def)
  from invalid_key_reported [OF h1, of "JObj []"]
       invalid_key_reported [OF h2, of JNull] h1 h2
  show ?thesis by simp
qed

text \<open>
  C6, as stated, fails: a connector built without a separator does not reject keys. Its
  \<open>_splitChar\<close> is \<open>null\<close>, which \<open>split\<close> reads as the text "null", so \<open>users/a\<close> is one
  element and becomes one segment.
\<close>

theorem unset_separator_counterexample:
  "c_splitChar unset_connector = None \<and>
   getSegments unset_connector ''users/a'' = Some [''DS_SCHEMA:USERS/A'']"
  by (simp add: run_segments)

text \<open>
  C6, amended. Without a configured separator the key is split on the text "null": a key
  that does not contain "null", is not empty and is not the default label yields the
  single segment made of the default label, a colon and the uppercased key.
\<close>

theorem unset_separator_splits_on_null:
  assumes "c_splitChar c = None" and "\<not> sublist ''null'' key"
    and "key \<noteq> []" and "key \<noteq> c_defaultLabel c"
  shows "getSegments c key = Some [c_defaultLabel c @ '':'' @ toUpperCase key]"
proof -
  from assms(1) have sep: "separator c = ''null''" by (simp add: separator_def)
  from assms(2) have "js_split key ''null'' = [key]"
    by (simp add: js_split_def split_from_no_occurrence)
  with sep assms(3,4) show ?thesis
    by (simp add: getSegments_def)
qed

theorem unset_separator_splits_on_null_witness:
  "c_splitChar unset_connector = None \<and> \<not> sublist ''null'' ''users/a'' \<and>
   ''users/a'' \<noteq> [] \<and> ''users/a'' \<noteq> c_defaultLabel unset_connector \<and>
   getSegments unset_connector ''users/a'' = Some [''DS_SCHEMA:USERS/A'']"
proof -
  have h1: "c_splitChar unset_connector = None" by (simp add: unset_connector_def)
  have h2: "\<not> sublist ''null'' ''users/a''" by code_simp
  have h3: "''users/a'' \<noteq> []" by simp
  have h4: "''users/a'' \<noteq> c_defaultLabel unset_connector" by (simp add: unset_connector_def)
  have "getSegments unset_connector ''users/a'' = Some [''DS_SCHEMA:USERS/A'']"
    using unset_separator_splits_on_null [OF h1 h2 h3 h4]
    by (simp add: unset_connector_def toUpperCase_def toUpperCase_char_def)
  with h1 h2 h3 h4 show ?thesis by blast
qed

text \<open>
  C9. For three or more segments \<open>_getQuery\<close> returns the empty string whatever the action
  and the value, and a key with such segments is not rejected: \<open>get\<close> and \<open>delete\<close> open a
  session and run the empty query, and so does \<open>set\<close> with the transformed value as
  parameters, whenever the transform of its value does not throw.
\<close>

theorem long_keys_submit_empty_query:
  assumes "3 \<le> length segments"
  shows "getQuery act segments vals = [] \<and>
         (getSegments c key = Some segments \<longrightarrow>
            connector_get c key = Inr [Session, Run [] JUndefined] \<and>
            connector_delete c key = Inr [Session, Run [] JUndefined] \<and>
            (\<forall>val'. transformValueForStorage val = Inr val' \<longrightarrow>
               connector_set c key val = Inr [Session, Run [] val']))"
  using assms
  by (simp add: getQuery_def connector_get_def connector_delete_def connector_set_def)

theorem long_keys_submit_empty_query_witness:
  "3 \<le> length [''A'', ''b'', ''C''] \<and>
   getSegments example_connector ''a/b/c'' = Some [''A'', ''b'', ''C''] \<and>
   transformValueForStorage list_value = Inr list_stored \<and>
   getQuery SET [''A'', ''b'', ''C''] list_stored = [] \<and>
   connector_get example_connector ''a/b/c'' = Inr [Session, Run [] JUndefined] \<and>
   connector_delete example_connector ''a/b/c'' = Inr [Session, Run [] JUndefined] \<and>
   connector_set example_connector ''a/b/c'' list_value = Inr [Session, Run [] list_stored]"
proof -
  have h1: "3 \<le> length [''A'', ''b'', ''C'']" by simp
  have h2: "getSegments example_connector ''a/b/c'' = Some [''A'', ''b'', ''C'']"
    by (simp add: run_segments)
  note h3 = forStorage_list_value
  from long_keys_submit_empty_query [OF h1, of SET list_stored example_connector "''a/b/c''" list_value]
    h1 h2 h3
  show ?thesis by simp
qed

text \<open>
  C10. The comparison with the default label is made on the element as written, before
  the case is normalised: a first element that differs from the default label but
  uppercases to it is accepted and becomes the default label (behind the default label and
  a colon when it is the only element). With default label \<open>DS_SCHEMA\<close>: \<open>DS_SCHEMA\<close> is
  rejected, \<open>ds_schema\<close> and \<open>ds_schema/a\<close> are accepted.
\<close>

theorem default_label_check_case_sensitive:
  "(js_split key (separator c) = s # rest \<and> s \<noteq> c_defaultLabel c \<and>
    toUpperCase s = c_defaultLabel c \<longrightarrow>
      getSegments c key =
        Some (if rest = [] then [c_defaultLabel c @ '':'' @ c_defaultLabel c]
              else c_defaultLabel c # normalize_from 1 rest)) \<and>
   getSegments example_connector ''DS_SCHEMA'' = None \<and>
   getSegments example_connector ''ds_schema'' = Some [''DS_SCHEMA:DS_SCHEMA''] \<and>
   getSegments example_connector ''ds_schema/a'' = Some [''DS_SCHEMA'', ''a'']"
proof -
  have general: "js_split key (separator c) = s # rest \<and> s \<noteq> c_defaultLabel c \<and>
    toUpperCase s = c_defaultLabel c \<longrightarrow>
      getSegments c key =
        Some (if rest = [] then [c_defaultLabel c @ '':'' @ c_defaultLabel c]
              else c_defaultLabel c # normalize_from 1 rest)"
  proof
    assume a: "js_split key (separator c) = s # rest \<and> s \<noteq> c_defaultLabel c \<and>
               toUpperCase s = c_defaultLabel c"
    then have "s \<noteq> []" by (auto simp: toUpperCase_def)
    with a show "getSegments c key =
        Some (if rest = [] then [c_defaultLabel c @ '':'' @ c_defaultLabel c]
              else c_defaultLabel c # normalize_from 1 rest)"
      by (simp add: getSegments_def length_normalize_from)
  qed
  have e0: "getSegments example_connector ''DS_SCHEMA'' = None"
    by (simp add: run_segments)
  have e1: "getSegments example_connector ''ds_schema'' = Some [''DS_SCHEMA:DS_SCHEMA'']"
    by (simp add: run_segments)
  have e2: "getSegments example_connector ''ds_schema/a'' = Some [''DS_SCHEMA'', ''a'']"
    by (simp add: run_segments)
  from general e0 e1 e2 show ?thesis by blast
qed

theorem default_label_check_case_sensitive_witness:
  "js_split ''ds_schema/a/B'' (separator example_connector) = ''ds_schema'' # [''a'', ''B''] \<and>
   ''ds_schema'' \<noteq> c_defaultLabel example_connector \<and>
   toUpperCase ''ds_schema'' = c_defaultLabel example_connector \<and>
   getSegments example_connector ''ds_schema/a/B'' = Some [''DS_SCHEMA'', ''a'', ''B'']"
proof -
  have h1: "js_split ''ds_schema/a/B'' (separator example_connector) = ''ds_schema'' # [''a'', ''B'']"
    by (simp add: example_connector_def separator_def js_split_def)
  have h2: "''ds_schema'' \<noteq> c_defaultLabel example_connector"
    by (simp add: example_connector_def)
  have h3: "toUpperCase ''ds_schema'' = c_defaultLabel example_connector"
    by (simp add: example_connector_def toUpperCase_def toUpperCase_char_def)
  from default_label_check_case_sensitive [of "''ds_schema/a/B''" example_connector "''ds_schema''" "[''a'', ''B'']"]
    h1 h2 h3
  show ?thesis by (simp add: example_connector_def toUpperCase_def toUpperCase_char_def)
qed

text \<open>
  C7. When \<open>connectionString\<close>, \<open>userName\<close> or \<open>password\<close> is missing, the constructor
  throws an Error and has done nothing to the outside before: no driver is created and no
  session opened. When all three are given (and not the empty string, which the
  constructor also reports as missing), it does not throw and returns a connector that is
  not ready yet.
\<close>

theorem constructor_fails_fast:
  "(connectionString opts = None \<or> userName opts = None \<or> password opts = None \<longrightarrow>
      (\<exists>msg. Connector pckg_name pckg_version opts = ([], Inl (Error msg)))) \<and>
   (\<not> falsy_opt (connectionString opts) \<and> \<not> falsy_opt (userName opts) \<and>
    \<not> falsy_opt (password opts) \<longrightarrow>
      (\<exists>this. snd (Connector pckg_name pckg_version opts) = Inr this \<and> \<not> isReady this))"
  by (auto simp: Connector_def falsy_opt_def Let_def)

theorem constructor_fails_fast_witness:
  "password (test_options \<lparr> password := None \<rparr>) = None \<and>
   (\<exists>msg. Connector ''neo4j'' ''1.0'' (test_options \<lparr> password := None \<rparr>) = ([], Inl (Error msg))) \<and>
   \<not> falsy_opt (connectionString test_options) \<and> \<not> falsy_opt (userName test_options) \<and>
   \<not> falsy_opt (password test_options) \<and>
   (\<exists>this. snd (Connector ''neo4j'' ''1.0'' test_options) = Inr this \<and> \<not> isReady this)"
proof -
  have h1: "password (test_options \<lparr> password := None \<rparr>) = None" by simp
  have h2: "\<not> falsy_opt (connectionString test_options) \<and> \<not> falsy_opt (userName test_options) \<and>
            \<not> falsy_opt (password test_options)"
    by (simp add: test_options_def falsy_opt_def)
  from constructor_fails_fast [of "test_options \<lparr> password := None \<rparr>" "''neo4j''" "''1.0''"] h1
  have a: "\<exists>msg. Connector ''neo4j'' ''1.0'' (test_options \<lparr> password := None \<rparr>) = ([], Inl (Error msg))"
    by blast
  from constructor_fails_fast [of test_options "''neo4j''" "''1.0''"] h2
  have b: "\<exists>this. snd (Connector ''neo4j'' ''1.0'' test_options) = Inr this \<and> \<not> isReady this"
    by blast
  from h1 h2 a b show ?thesis by blast
qed


section \<open>Claims about the query text\<close>












section \<open>Claims about the value transform\<close>

lemma json_copy_falsy: "v \<noteq> JUndefined \<Longrightarrow> \<not> truthy v \<Longrightarrow> json_copy v = v"
  by (cases v) simp_all

lemma map_of_json_copy_None:
  "map_of fs k = None \<Longrightarrow>
   map_of (map (\<lambda>(k, v). (k, json_copy v)) (filter (\<lambda>(k, v). v \<noteq> JUndefined) fs)) k = None"
  by (induction fs) (auto split: if_splits)

text \<open>On \<open>undefined\<close> the copy throws before the check for a falsy value is reached.\<close>

lemma fromStorage_undefined_throws: "transformValueFromStorage JUndefined = Inl SyntaxError"
  by (simp add: transformValueFromStorage_def json_clone_def)

text \<open>
  C5, as stated, fails: on the object with no fields \<open>transformValueFromStorage\<close> throws a
  TypeError, because \<open>__ds\<close> is \<open>undefined\<close> and \<open>_d\<close> is assigned on it.
\<close>

theorem fromStorage_empty_object_counterexample:
  "transformValueFromStorage (JObj []) = Inl TypeError"
  by (simp add: transformValueFromStorage_def json_clone_def)

text \<open>
  C5, amended. On \<open>null\<close>, and on every other falsy value that is not \<open>undefined\<close>,
  \<open>transformValueFromStorage\<close> returns \<open>undefined\<close>, its "no value" result; on an object
  that has no \<open>__ds\<close> property, the empty object among them, it throws a TypeError.
\<close>

theorem fromStorage_absent_input:
  "(v \<noteq> JUndefined \<and> \<not> truthy v \<longrightarrow> transformValueFromStorage v = Inr JUndefined) \<and>
   transformValueFromStorage JNull = Inr JUndefined \<and>
   (map_of fs ''__ds'' = None \<longrightarrow> transformValueFromStorage (JObj fs) = Inl TypeError)"
proof -
  have a: "v \<noteq> JUndefined \<and> \<not> truthy v \<longrightarrow> transformValueFromStorage v = Inr JUndefined"
    by (simp add: transformValueFromStorage_def json_clone_def json_copy_falsy)
  have b: "transformValueFromStorage JNull = Inr JUndefined"
    by (simp add: transformValueFromStorage_def json_clone_def)
  have c: "map_of fs ''__ds'' = None \<longrightarrow> transformValueFromStorage (JObj fs) = Inl TypeError"
  proof
    assume "map_of fs ''__ds'' = None"
    from map_of_json_copy_None [OF this]
    show "transformValueFromStorage (JObj fs) = Inl TypeError"
      by (simp add: transformValueFromStorage_def json_clone_def Let_def split: sum.splits)
  qed
  from a b c show ?thesis by blast
qed

theorem fromStorage_absent_input_witness:
  "JBool False \<noteq> JUndefined \<and> \<not> truthy (JBool False) \<and>
   transformValueFromStorage (JBool False) = Inr JUndefined \<and>
   map_of [(''_props'', JObj [])] ''__ds'' = None \<and>
   transformValueFromStorage (JObj [(''_props'', JObj [])]) = Inl TypeError"
  using fromStorage_absent_input [of "JBool False" "[(''_props'', JObj [])]"]
  by simp


subsection \<open>The round trip\<close>

lemma json_value_not_undefined: "json_value v \<Longrightarrow> v \<noteq> JUndefined"
  by (cases v) simp_all

lemma json_copy_id: "json_value v \<Longrightarrow> json_copy v = v"
proof (induction v)
  case (JArr xs ps)
  have "map (\<lambda>x. if x = JUndefined then JNull else json_copy x) xs = xs"
  proof (rule map_idI)
    fix x assume x: "x \<in> set xs"
    with JArr.prems have jv: "json_value x" by (simp add: list_all_iff)
    with JArr.IH(1) [OF x] json_value_not_undefined [OF jv]
    show "(if x = JUndefined then JNull else json_copy x) = x" by simp
  qed
  with JArr.prems show ?case by simp
next
  case (JObj fs)
  have keep: "filter (\<lambda>(k, v). v \<noteq> JUndefined) fs = fs"
  proof (rule filter_True)
    show "\<forall>x\<in>set fs. case x of (k, v) \<Rightarrow> v \<noteq> JUndefined"
      using JObj.prems json_value_not_undefined by fastforce
  qed
  have "map (\<lambda>(k, v). (k, json_copy v)) fs = fs"
  proof (rule map_idI)
    fix p assume p: "p \<in> set fs"
    obtain k x where kx: "p = (k, x)" by (cases p)
    with p JObj.prems have "json_value x" by auto
    moreover from p kx have "x \<in> Basic_BNFs.snds p" by simp
    ultimately have "json_copy x = x" using JObj.IH [OF p] by blast
    with kx show "(case p of (k, v) \<Rightarrow> (k, json_copy v)) = p" by simp
  qed
  with keep show ?case by simp
qed simp_all

lemma set_delete_subset: "set (AList.delete k al) \<subseteq> set al"
  by (auto simp: AList.delete_eq)

lemma json_value_delete: "json_value (JObj fs) \<Longrightarrow> json_value (JObj (AList.delete k fs))"
  using set_delete_subset [of k fs] by (auto simp: distinct_delete)

lemma set_update_subset: "set (AList.update k x al) \<subseteq> insert (k, x) (set al)"
  by (induction al) auto

lemma json_value_update:
  "json_value (JObj fs) \<Longrightarrow> json_value x \<Longrightarrow> json_value (JObj (AList.update k x fs))"
  using set_update_subset [of k x fs] by (auto simp: distinct_update)

lemma json_value_lookup: "json_value (JObj fs) \<Longrightarrow> map_of fs k = Some x \<Longrightarrow> json_value x"
  by (auto dest: map_of_SomeD)

lemma deep_equal_refl: "json_value v \<Longrightarrow> deep_equal v v"
proof (induction v)
  case (JArr xs ps)
  have "list_all2 deep_equal xs xs"
  proof (rule list_all2_all_nthI)
    fix n assume "n < length xs"
    then have m: "xs ! n \<in> set xs" by simp
    with JArr.prems have "json_value (xs ! n)" by (simp add: list_all_iff)
    with JArr.IH(1) [OF m] show "deep_equal (xs ! n) (xs ! n)" .
  qed simp
  then show ?case by simp
next
  case (JObj fs)
  have "\<forall>(k, v) \<in> set fs. \<forall>(k', w) \<in> set fs. k = k' \<longrightarrow> deep_equal v w"
  proof (clarify)
    fix k v w assume a: "(k, v) \<in> set fs" and b: "(k, w) \<in> set fs"
    from JObj.prems have d: "distinct (map fst fs)" by simp
    from d a b have "v = w" by (meson eq_key_imp_eq_value)
    moreover from JObj.prems a have "json_value v" by auto
    moreover from a have "v \<in> Basic_BNFs.snds (k, v)" by simp
    ultimately show "deep_equal v w" using JObj.IH [OF a] by blast
  qed
  then show ?case by simp
qed simp_all

lemma deep_equal_objI:
  assumes "distinct (map fst fs)" and "distinct (map fst gs)"
    and "fst ` set fs = fst ` set gs"
    and "\<And>k v w. map_of fs k = Some v \<Longrightarrow> map_of gs k = Some w \<Longrightarrow> deep_equal v w"
  shows "deep_equal (JObj fs) (JObj gs)"
proof -
  have "\<forall>(k, v) \<in> set fs. \<forall>(k', w) \<in> set gs. k = k' \<longrightarrow> deep_equal v w"
  proof (clarify)
    fix k v w assume a: "(k, v) \<in> set fs" and b: "(k, w) \<in> set gs"
    from assms(1) a have "map_of fs k = Some v" by simp
    moreover from assms(2) b have "map_of gs k = Some w" by simp
    ultimately show "deep_equal v w" by (rule assms(4))
  qed
  with assms(3) show ?thesis by simp
qed

lemma is_scalar_json: "is_scalar v \<Longrightarrow> json_value v"
  by (cases v) simp_all

lemma is_number_json: "is_number v \<Longrightarrow> json_value v"
  by (cases v) simp_all

lemma wf_descriptor_json:
  assumes "wf_descriptor v"
  shows "json_value v"
proof (cases v)
  case (JObj fs)
  with assms have d: "distinct (map fst fs)" and n: "\<forall>(k, x) \<in> set fs. is_number x"
    by simp_all
  from n have "\<forall>(k, x) \<in> set fs. json_value x"
    by (auto dest: is_number_json)
  with d JObj show ?thesis by simp
qed (use assms in simp_all)

lemma wf_rels_json: "wf_rels v \<Longrightarrow> json_value v"
  by (cases v) (auto dest: wf_descriptor_json)

lemma wf_payload_json: "wf_payload v \<Longrightarrow> json_value v"
proof (cases v)
  case (JArr xs ps)
  assume "wf_payload v"
  with JArr show ?thesis by (auto simp: list_all_iff dest: is_scalar_json)
next
  case (JObj ps)
  assume "wf_payload v"
  with JObj show ?thesis by (auto dest: is_scalar_json wf_rels_json split: if_splits)
qed simp_all

lemma wf_external_json:
  assumes "wf_external v"
  shows "json_value v"
proof (cases v)
  case (JObj fs)
  with assms have d: "distinct (map fst fs)"
    and n: "\<forall>(k, x) \<in> set fs. if k = ''_d'' then wf_payload x else is_number x"
    by simp_all
  from n have "\<forall>(k, x) \<in> set fs. json_value x"
    by (auto dest: is_number_json wf_payload_json split: if_splits)
  with d JObj show ?thesis by simp
qed (use assms in simp_all)

lemma wf_external_payload:
  assumes "wf_external v"
  obtains fs d where "v = JObj fs" and "map_of fs ''_d'' = Some d" and "wf_payload d"
proof -
  from assms obtain fs where v: "v = JObj fs" by (cases v) simp_all
  with assms have dist: "distinct (map fst fs)" and keys: "set (map fst fs) = {''_v'', ''_d''}"
    and vals: "\<forall>(k, x) \<in> set fs. if k = ''_d'' then wf_payload x else is_number x"
    by simp_all
  from keys have "''_d'' \<in> fst ` set fs" by simp
  then obtain d where d: "(''_d'', d) \<in> set fs" by auto
  with dist have "map_of fs ''_d'' = Some d" by simp
  moreover from d vals have "wf_payload d" by auto
  ultimately show thesis using v that by blast
qed

lemma fst_set_delete: "fst ` set (AList.delete k al) = fst ` set al - {k}"
  by (auto simp: AList.delete_eq)

lemma deep_equal_update_delete:
  assumes "json_value (JObj fs)" and "map_of fs k = Some d" and "deep_equal d' d"
  shows "deep_equal (JObj (AList.update k d' (AList.delete k fs))) (JObj fs)"
proof (rule deep_equal_objI)
  from assms(1) have dist: "distinct (map fst fs)" by simp
  then show "distinct (map fst (AList.update k d' (AList.delete k fs)))"
    by (simp add: distinct_update distinct_delete)
  from dist show "distinct (map fst fs)" .
  from assms(2) have "k \<in> fst ` set fs"
    by (metis domI dom_map_of_conv_image_fst)
  then show "fst ` set (AList.update k d' (AList.delete k fs)) = fst ` set fs"
    by (auto simp: dom_update fst_set_delete)
next
  fix k' v w
  assume a: "map_of (AList.update k d' (AList.delete k fs)) k' = Some v"
    and b: "map_of fs k' = Some w"
  show "deep_equal v w"
  proof (cases "k' = k")
    case True
    with a b assms(2) have "v = d'" and "w = d" by (simp_all add: update_conv')
    with assms(3) show ?thesis by simp
  next
    case False
    with a b have "v = w" by (simp add: update_conv' delete_conv')
    moreover from assms(1) b have "json_value w" by (rule json_value_lookup)
    ultimately show ?thesis by (simp add: deep_equal_refl)
  qed
qed

lemma forStorage_list_via_copy:
  assumes "v \<noteq> JUndefined" and "json_copy v = JObj gs" and "map_of gs ''_d'' = Some (JArr xs ps)"
  shows "transformValueForStorage v =
           Inr (JObj [(''__dsList'', JArr xs ps), (''__ds'', JObj (AList.delete ''_d'' gs))])"
  using assms by (simp add: transformValueForStorage_def json_clone_def)

lemma forStorage_object_via_copy:
  assumes "v \<noteq> JUndefined" and "json_copy v = JObj gs" and "map_of gs ''_d'' = Some (JObj ps)"
  shows "transformValueForStorage v =
           Inr (JObj [(''_props'', JObj (AList.delete ''_rels'' ps)),
                      (''_rels'', case map_of ps ''_rels'' of None \<Rightarrow> JUndefined | Some r \<Rightarrow> r),
                      (''__ds'', JObj (AList.delete ''_d'' gs))])"
  using assms by (simp add: transformValueForStorage_def json_clone_def)

lemma fromStorage_list:
  assumes "json_value (JArr xs ps)" and "json_value (JObj ms)"
  shows "transformValueFromStorage (JObj [(''__dsList'', JArr xs ps), (''__ds'', JObj ms)]) =
           Inr (JObj (AList.update ''_d'' (JArr xs ps) ms))"
proof -
  from assms have "json_copy (JArr xs ps) = JArr xs ps" and "json_copy (JObj ms) = JObj ms"
    by (simp_all only: json_copy_id)
  then show ?thesis
    by (simp add: transformValueFromStorage_def json_clone_def)
qed

lemma fromStorage_object:
  assumes "json_value (JObj ps)" and "json_value (JObj ms)" and "r = JUndefined \<or> json_value r"
  shows "transformValueFromStorage (JObj [(''_props'', JObj ps), (''_rels'', r), (''__ds'', JObj ms)]) =
           Inr (JObj (AList.update ''_d'' (JObj (AList.update ''_rels'' r ps)) ms))"
proof -
  from assms have c: "json_copy (JObj ps) = JObj ps" "json_copy (JObj ms) = JObj ms"
    by (simp_all only: json_copy_id)
  have r: "r \<noteq> JUndefined \<Longrightarrow> json_copy r = r"
    using assms(3) by (simp add: json_copy_id)
  from c r show ?thesis
    by (cases "r = JUndefined") (simp_all add: transformValueFromStorage_def json_clone_def)
qed

lemma round_trip_list:
  assumes jv: "json_value (JObj fs)" and d: "map_of fs ''_d'' = Some (JArr xs ps)"
  defines "s \<equiv> JObj [(''__dsList'', JArr xs ps), (''__ds'', JObj (AList.delete ''_d'' fs))]"
    and "r \<equiv> JObj (AList.update ''_d'' (JArr xs ps) (AList.delete ''_d'' fs))"
  shows "transformValueForStorage (JObj fs) = Inr s"
    and "transformValueFromStorage s = Inr r"
    and "transformValueForStorage r = Inr s"
    and "json_copy r = r"
    and "deep_equal r (JObj fs)"
proof -
  from jv have cp: "json_copy (JObj fs) = JObj fs" by (rule json_copy_id)
  from jv d have jd: "json_value (JArr xs ps)" by (rule json_value_lookup)
  from jv have jm: "json_value (JObj (AList.delete ''_d'' fs))" by (rule json_value_delete)
  show "transformValueForStorage (JObj fs) = Inr s"
    unfolding s_def by (rule forStorage_list_via_copy [OF _ cp d]) simp
  show "transformValueFromStorage s = Inr r"
    unfolding s_def r_def by (rule fromStorage_list [OF jd jm])
  have jr: "json_value r"
    unfolding r_def by (rule json_value_update [OF jm jd])
  then show cr: "json_copy r = r" by (rule json_copy_id)
  have look: "map_of (AList.update ''_d'' (JArr xs ps) (AList.delete ''_d'' fs)) ''_d'' = Some (JArr xs ps)"
    by (simp add: update_conv')
  have del: "AList.delete ''_d'' (AList.update ''_d'' (JArr xs ps) (AList.delete ''_d'' fs))
               = AList.delete ''_d'' fs"
    by (simp add: delete_update_same delete_idem)
  have "transformValueForStorage r =
          Inr (JObj [(''__dsList'', JArr xs ps),
                     (''__ds'', JObj (AList.delete ''_d'' (AList.update ''_d'' (JArr xs ps) (AList.delete ''_d'' fs))))])"
    by (rule forStorage_list_via_copy [OF _ cr [unfolded r_def] look, folded r_def]) (simp add: r_def)
  then show "transformValueForStorage r = Inr s"
    unfolding s_def del .
  from jd have "deep_equal (JArr xs ps) (JArr xs ps)" by (rule deep_equal_refl)
  with jv d show "deep_equal r (JObj fs)"
    unfolding r_def by (rule deep_equal_update_delete)
qed

lemma round_trip_rels:
  assumes jv: "json_value (JObj fs)" and d: "map_of fs ''_d'' = Some (JObj ps)"
    and rl: "map_of ps ''_rels'' = Some rels"
  defines "s \<equiv> JObj [(''_props'', JObj (AList.delete ''_rels'' ps)), (''_rels'', rels),
                       (''__ds'', JObj (AList.delete ''_d'' fs))]"
    and "d' \<equiv> JObj (AList.update ''_rels'' rels (AList.delete ''_rels'' ps))"
  defines "r \<equiv> JObj (AList.update ''_d'' d' (AList.delete ''_d'' fs))"
  shows "transformValueForStorage (JObj fs) = Inr s"
    and "transformValueFromStorage s = Inr r"
    and "transformValueForStorage r = Inr s"
    and "json_copy r = r"
    and "deep_equal r (JObj fs)"
proof -
  from jv have cp: "json_copy (JObj fs) = JObj fs" by (rule json_copy_id)
  from jv d have jd: "json_value (JObj ps)" by (rule json_value_lookup)
  from jd rl have jrels: "json_value rels" by (rule json_value_lookup)
  from jv have jm: "json_value (JObj (AList.delete ''_d'' fs))" by (rule json_value_delete)
  from jd have jp: "json_value (JObj (AList.delete ''_rels'' ps))" by (rule json_value_delete)
  have jd': "json_value d'"
    unfolding d'_def by (rule json_value_update [OF jp jrels])
  have "transformValueForStorage (JObj fs) =
          Inr (JObj [(''_props'', JObj (AList.delete ''_rels'' ps)),
                     (''_rels'', case map_of ps ''_rels'' of None \<Rightarrow> JUndefined | Some r \<Rightarrow> r),
                     (''__ds'', JObj (AList.delete ''_d'' fs))])"
    by (rule forStorage_object_via_copy [OF _ cp d]) simp
  then show "transformValueForStorage (JObj fs) = Inr s"
    unfolding s_def by (simp add: rl)
  have "transformValueFromStorage s =
          Inr (JObj (AList.update ''_d'' (JObj (AList.update ''_rels'' rels (AList.delete ''_rels'' ps)))
                      (AList.delete ''_d'' fs)))"
    unfolding s_def using jrels by (intro fromStorage_object [OF jp jm]) simp
  then show "transformValueFromStorage s = Inr r"
    unfolding r_def d'_def .
  have jr: "json_value r"
    unfolding r_def by (rule json_value_update [OF jm jd'])
  then show cr: "json_copy r = r" by (rule json_copy_id)
  have look: "map_of (AList.update ''_d'' d' (AList.delete ''_d'' fs)) ''_d''
                = Some (JObj (AList.update ''_rels'' rels (AList.delete ''_rels'' ps)))"
    by (simp add: update_conv' d'_def)
  have del: "AList.delete ''_d'' (AList.update ''_d'' d' (AList.delete ''_d'' fs))
               = AList.delete ''_d'' fs"
    by (simp add: delete_update_same delete_idem)
  have delr: "AList.delete ''_rels'' (AList.update ''_rels'' rels (AList.delete ''_rels'' ps))
               = AList.delete ''_rels'' ps"
    by (simp add: delete_update_same delete_idem)
  have lookr: "map_of (AList.update ''_rels'' rels (AList.delete ''_rels'' ps)) ''_rels'' = Some rels"
    by (simp add: update_conv')
  have "transformValueForStorage r =
          Inr (JObj [(''_props'', JObj (AList.delete ''_rels'' (AList.update ''_rels'' rels (AList.delete ''_rels'' ps)))),
                     (''_rels'', case map_of (AList.update ''_rels'' rels (AList.delete ''_rels'' ps)) ''_rels'' of
                                   None \<Rightarrow> JUndefined | Some r \<Rightarrow> r),
                     (''__ds'', JObj (AList.delete ''_d'' (AList.update ''_d'' d' (AList.delete ''_d'' fs))))])"
    by (rule forStorage_object_via_copy [OF _ cr [unfolded r_def] look, folded r_def]) (simp add: r_def)
  then show "transformValueForStorage r = Inr s"
    unfolding s_def del delr lookr by simp
  from jrels have "deep_equal rels rels" by (rule deep_equal_refl)
  with jd rl have "deep_equal d' (JObj ps)"
    unfolding d'_def by (rule deep_equal_update_delete)
  with jv d show "deep_equal r (JObj fs)"
    unfolding r_def by (rule deep_equal_update_delete)
qed

text \<open>
  Where \<open>_d\<close> is a list or an object that has \<open>_rels\<close>, the two transforms are inverse to
  each other: the backward transform of the forward transform deep-equals the value, and
  the forward transform of that result is the storage value again.
\<close>

lemma round_trip_with_list_or_rels:
  assumes "wf_external v" and "instanceof_Array (payload v) \<or> has_rels (payload v)"
  shows "\<exists>s r. transformValueForStorage v = Inr s \<and> transformValueFromStorage s = Inr r \<and>
               deep_equal r v \<and> transformValueForStorage r = Inr s"
proof -
  from assms(1) obtain fs d where v: "v = JObj fs" and d: "map_of fs ''_d'' = Some d"
    and wd: "wf_payload d" by (rule wf_external_payload)
  from assms(1) have jv: "json_value (JObj fs)" unfolding v by (rule wf_external_json)
  from d have pl: "payload v = d" by (simp add: payload_def v)
  show ?thesis
  proof (cases d)
    case (JArr xs ps)
    show ?thesis
      unfolding v using round_trip_list [OF jv d [unfolded JArr]] by blast
  next
    case (JObj ps)
    from assms(2) obtain rels where "map_of ps ''_rels'' = Some rels"
      unfolding pl JObj by auto
    then show ?thesis
      unfolding v using round_trip_rels [OF jv d [unfolded JObj]] by blast
  qed (use wd in simp_all)
qed

text \<open>
  C1. The round-trip law holds on the paths above and is broken by the code for an External
  Value in object form without \<open>_rels\<close>. At \<open>{ _v: 1, _d: { name: 'x' } }\<close>, a well-formed
  value, the forward transform stores \<open>_rels: undefined\<close>; the backward transform assigns
  \<open>data._d._rels = value._rels\<close> without looking whether there is a \<open>_rels\<close>, and returns
  \<open>{ _v: 1, _d: { name: 'x', _rels: undefined } }\<close>, which is not deep-equal to the value:
  \<open>_d\<close> has a property the value does not have.
\<close>

theorem round_trip_broken_without_rels:
  "wf_external plain_value \<and>
   transformValueForStorage plain_value = Inr plain_stored \<and>
   transformValueFromStorage plain_stored = Inr plain_back \<and>
   \<not> deep_equal plain_back plain_value"
  by (simp add: plain_value_def plain_stored_def plain_back_def
      transformValueForStorage_def transformValueFromStorage_def json_clone_def)

section \<open>Claim about mutation and sharing\<close>

lemma extends_refl: "extends h h"
  by (auto simp: extends_def)

lemma fresh_val_mono: "fresh_val h0 h x \<Longrightarrow> length h \<le> length h' \<Longrightarrow> fresh_val h0 h' x"
  by (auto simp: fresh_val_def)

lemma fresh_val_prim [simp]:
  "fresh_val h0 h HUndefined" "fresh_val h0 h HNull" "fresh_val h0 h (HBool b)"
  "fresh_val h0 h (HNum i)" "fresh_val h0 h (HStr s)"
  by (simp_all add: fresh_val_def)

lemma extends_append:
  assumes e: "extends h0 h" and c: "\<forall>x \<in> set (cell_vals c). fresh_val h0 (h @ [c]) x"
  shows "extends h0 (h @ [c])"
proof -
  from e have len: "length h0 \<le> length h" and tk: "take (length h0) h = h0"
    and old: "\<forall>a. length h0 \<le> a \<and> a < length h \<longrightarrow> (\<forall>x \<in> set (cell_vals (h ! a)). fresh_val h0 h x)"
    by (simp_all add: extends_def)
  have "\<forall>a. length h0 \<le> a \<and> a < length (h @ [c]) \<longrightarrow>
            (\<forall>x \<in> set (cell_vals ((h @ [c]) ! a)). fresh_val h0 (h @ [c]) x)"
  proof (intro allI impI ballI)
    fix a x
    assume a: "length h0 \<le> a \<and> a < length (h @ [c])" and x: "x \<in> set (cell_vals ((h @ [c]) ! a))"
    show "fresh_val h0 (h @ [c]) x"
    proof (cases "a < length h")
      case True
      with x have "x \<in> set (cell_vals (h ! a))" by (simp add: nth_append)
      with old a True have "fresh_val h0 h x" by blast
      then show ?thesis by (rule fresh_val_mono) simp
    next
      case False
      with a have "a = length h" by simp
      with x have "x \<in> set (cell_vals c)" by simp
      with c show ?thesis by blast
    qed
  qed
  with len tk show ?thesis by (simp add: extends_def)
qed

lemma alloc_length:
  "alloc t h = (v, h') \<Longrightarrow> length h \<le> length h'"
  "alloc_list ts h = (vs, h') \<Longrightarrow> length h \<le> length h'"
  "alloc_fields fs h = (gs, h') \<Longrightarrow> length h \<le> length h'"
proof (induction t h and ts h and fs h arbitrary: v h' and vs h' and gs h'
       rule: alloc_alloc_list_alloc_fields.induct)
  case (6 xs ps h)
  obtain ws h1 where a1: "alloc_list xs h = (ws, h1)" by (cases "alloc_list xs h")
  obtain gs h2 where a2: "alloc_fields ps h1 = (gs, h2)" by (cases "alloc_fields ps h1")
  from "6.IH"(1) [OF a1] "6.IH"(2) [OF a1 [symmetric] a2] "6.prems" a1 a2
  show ?case by auto
next
  case (7 fs h)
  then show ?case by (fastforce split: prod.splits)
next
  case (9 x xs h)
  obtain w h1 where a1: "alloc x h = (w, h1)" by (cases "alloc x h")
  obtain ws h2 where a2: "alloc_list xs h1 = (ws, h2)" by (cases "alloc_list xs h1")
  from "9.IH"(1) [OF a1] "9.IH"(2) [OF a1 [symmetric] a2] "9.prems" a1 a2
  show ?case by simp
next
  case (11 k x fs h)
  obtain w h1 where a1: "alloc x h = (w, h1)" by (cases "alloc x h")
  obtain ws h2 where a2: "alloc_fields fs h1 = (ws, h2)" by (cases "alloc_fields fs h1")
  from "11.IH"(1) [OF a1] "11.IH"(2) [OF a1 [symmetric] a2] "11.prems" a1 a2
  show ?case by simp
qed simp_all

lemma alloc_fresh:
  "extends h0 h \<Longrightarrow> alloc t h = (v, h') \<Longrightarrow> extends h0 h' \<and> fresh_val h0 h' v"
  "extends h0 h \<Longrightarrow> alloc_list ts h = (vs, h') \<Longrightarrow>
     extends h0 h' \<and> (\<forall>x \<in> set vs. fresh_val h0 h' x)"
  "extends h0 h \<Longrightarrow> alloc_fields fs h = (gs, h') \<Longrightarrow>
     extends h0 h' \<and> (\<forall>x \<in> snd ` set gs. fresh_val h0 h' x)"
proof (induction t h and ts h and fs h arbitrary: v h' and vs h' and gs h'
       rule: alloc_alloc_list_alloc_fields.induct)
  case (6 xs ps h)
  obtain ws h1 where a1: "alloc_list xs h = (ws, h1)" by (cases "alloc_list xs h")
  obtain gs h2 where a2: "alloc_fields ps h1 = (gs, h2)" by (cases "alloc_fields ps h1")
  from "6.IH"(1) [OF "6.prems"(1) a1] have e1: "extends h0 h1"
    and f1: "\<forall>x \<in> set ws. fresh_val h0 h1 x" by simp_all
  from "6.IH"(2) [OF a1 [symmetric] e1 a2] have e2: "extends h0 h2"
    and f2: "\<forall>x \<in> snd ` set gs. fresh_val h0 h2 x" by simp_all
  from a2 have l12: "length h1 \<le> length h2" by (rule alloc_length)
  from "6.prems"(2) a1 a2 have v: "v = HRef (length h2)" and h': "h' = h2 @ [Arr ws gs]"
    by simp_all
  have "\<forall>x \<in> set (cell_vals (Arr ws gs)). fresh_val h0 (h2 @ [Arr ws gs]) x"
    using f1 f2 l12 by (auto intro: fresh_val_mono)
  with e2 have "extends h0 (h2 @ [Arr ws gs])" by (rule extends_append)
  moreover from e2 have "fresh_val h0 (h2 @ [Arr ws gs]) (HRef (length h2))"
    by (simp add: fresh_val_def extends_def)
  ultimately show ?case unfolding v h' by simp
next
  case (7 fs h)
  obtain ws h1 where al: "alloc_fields fs h = (ws, h1)" by (cases "alloc_fields fs h")
  from "7.IH" [OF "7.prems"(1) al] have e1: "extends h0 h1"
    and fr: "\<forall>x \<in> snd ` set ws. fresh_val h0 h1 x" by simp_all
  from "7.prems"(2) al have v: "v = HRef (length h1)" and h': "h' = h1 @ [Obj ws]" by simp_all
  have "\<forall>x \<in> set (cell_vals (Obj ws)). fresh_val h0 (h1 @ [Obj ws]) x"
    using fr by (auto intro: fresh_val_mono)
  with e1 have "extends h0 (h1 @ [Obj ws])" by (rule extends_append)
  moreover from e1 have "fresh_val h0 (h1 @ [Obj ws]) (HRef (length h1))"
    by (simp add: fresh_val_def extends_def)
  ultimately show ?case unfolding v h' by simp
next
  case (9 x xs h)
  obtain w h1 where a1: "alloc x h = (w, h1)" by (cases "alloc x h")
  obtain ws h2 where a2: "alloc_list xs h1 = (ws, h2)" by (cases "alloc_list xs h1")
  from "9.IH"(1) [OF "9.prems"(1) a1] have e1: "extends h0 h1" and f1: "fresh_val h0 h1 w"
    by simp_all
  from "9.IH"(2) [OF a1 [symmetric] e1 a2] have e2: "extends h0 h2"
    and f2: "\<forall>x \<in> set ws. fresh_val h0 h2 x" by simp_all
  from "9.prems"(2) a1 a2 have vs: "vs = w # ws" and h': "h' = h2" by simp_all
  from a2 have "length h1 \<le> length h2" by (rule alloc_length)
  with f1 have "fresh_val h0 h2 w" by (rule fresh_val_mono)
  with e2 f2 show ?case unfolding vs h' by simp
next
  case (11 k x fs h)
  obtain w h1 where a1: "alloc x h = (w, h1)" by (cases "alloc x h")
  obtain ws h2 where a2: "alloc_fields fs h1 = (ws, h2)" by (cases "alloc_fields fs h1")
  from "11.IH"(1) [OF "11.prems"(1) a1] have e1: "extends h0 h1" and f1: "fresh_val h0 h1 w"
    by simp_all
  from "11.IH"(2) [OF a1 [symmetric] e1 a2] have e2: "extends h0 h2"
    and f2: "\<forall>x \<in> snd ` set ws. fresh_val h0 h2 x" by simp_all
  from "11.prems"(2) a1 a2 have gs: "gs = (k, w) # ws" and h': "h' = h2" by simp_all
  from a2 have "length h1 \<le> length h2" by (rule alloc_length)
  with f1 have "fresh_val h0 h2 w" by (rule fresh_val_mono)
  with e2 f2 show ?case unfolding gs h' by simp
qed (auto simp: fresh_val_def)

lemma clone_fresh:
  assumes "h_clone h v = (h1, res)"
  shows "extends h h1 \<and> (\<forall>w. res = Inr w \<longrightarrow> fresh_val h h1 w)"
proof (cases "read_heap (length h) h v")
  case None
  with assms show ?thesis by (auto simp: h_clone_def extends_refl)
next
  case (Some t)
  show ?thesis
  proof (cases "json_clone t")
    case (Inl e)
    with Some assms show ?thesis by (auto simp: h_clone_def extends_refl)
  next
    case (Inr t')
    obtain w h' where al: "alloc t' h = (w, h')" by (cases "alloc t' h")
    from alloc_fresh(1) [OF extends_refl al] have "extends h h'" "fresh_val h h' w" by simp_all
    moreover from assms Some Inr al have "h1 = h'" "res = Inr w" by (simp_all add: h_clone_def)
    ultimately show ?thesis by simp
  qed
qed

lemma get_prop_fresh:
  assumes "extends h0 h" and "fresh_val h0 h x" and "h_get_prop h x k = Inr y"
  shows "fresh_val h0 h y"
proof (cases x)
  case (HRef a)
  with assms(2) have a: "length h0 \<le> a \<and> a < length h" by (simp add: fresh_val_def)
  with assms(1) have vals: "\<forall>z \<in> set (cell_vals (h ! a)). fresh_val h0 h z"
    by (simp add: extends_def)
  show ?thesis
  proof (cases "h ! a")
    case (Obj fs)
    show ?thesis
    proof (cases "map_of fs k")
      case None
      with assms(3) HRef Obj show ?thesis by auto
    next
      case (Some z)
      then have "z \<in> set (cell_vals (h ! a))"
        using Obj by (auto dest: map_of_SomeD intro: rev_image_eqI)
      with vals have "fresh_val h0 h z" by blast
      with assms(3) HRef Obj Some show ?thesis by auto
    qed
  next
    case (Arr vs ps)
    show ?thesis
    proof (cases "map_of ps k")
      case None
      with assms(3) HRef Arr show ?thesis by auto
    next
      case (Some z)
      then have "z \<in> set (cell_vals (h ! a))"
        using Arr by (auto dest: map_of_SomeD intro: rev_image_eqI)
      with vals have "fresh_val h0 h z" by blast
      with assms(3) HRef Arr Some show ?thesis by auto
    qed
  qed
qed (use assms(3) in auto)

lemma extends_update_cell:
  assumes e: "extends h0 h" and a: "length h0 \<le> a" "a < length h"
    and c: "\<forall>z \<in> set (cell_vals c). fresh_val h0 h z"
  shows "extends h0 (h[a := c])"
proof -
  from e have len: "length h0 \<le> length h" and tk: "take (length h0) h = h0"
    and old: "\<forall>b. length h0 \<le> b \<and> b < length h \<longrightarrow> (\<forall>x \<in> set (cell_vals (h ! b)). fresh_val h0 h x)"
    by (simp_all add: extends_def)
  have fv: "\<And>z. fresh_val h0 (h[a := c]) z = fresh_val h0 h z"
    by (simp add: fresh_val_def)
  have "\<forall>b. length h0 \<le> b \<and> b < length (h[a := c]) \<longrightarrow>
            (\<forall>x \<in> set (cell_vals (h[a := c] ! b)). fresh_val h0 (h[a := c]) x)"
  proof (intro allI impI ballI)
    fix b x
    assume b: "length h0 \<le> b \<and> b < length (h[a := c])" and x: "x \<in> set (cell_vals (h[a := c] ! b))"
    show "fresh_val h0 (h[a := c]) x"
    proof (cases "b = a")
      case True
      with x a have "x \<in> set (cell_vals c)" by simp
      with c show ?thesis unfolding fv by blast
    next
      case False
      with x have "x \<in> set (cell_vals (h ! b))" by simp
      with old b show ?thesis unfolding fv by simp
    qed
  qed
  moreover from a(1) tk have "take (length h0) (h[a := c]) = h0" by simp
  ultimately show ?thesis using len by (simp add: extends_def)
qed

lemma delete_prop_length [simp]: "length (h_delete_prop h x k) = length h"
  by (cases x) (auto split: cell.splits)

lemma delete_prop_fresh:
  assumes "extends h0 h" and "fresh_val h0 h x"
  shows "extends h0 (h_delete_prop h x k)"
proof (cases x)
  case (HRef a)
  with assms(2) have a: "length h0 \<le> a" "a < length h" by (simp_all add: fresh_val_def)
  with assms(1) have vals: "\<forall>z \<in> set (cell_vals (h ! a)). fresh_val h0 h z"
    by (simp add: extends_def)
  show ?thesis
  proof (cases "h ! a")
    case (Obj fs)
    have "set (AList.delete k fs) \<subseteq> set fs" by (rule set_delete_subset)
    with vals Obj have "\<forall>z \<in> set (cell_vals (Obj (AList.delete k fs))). fresh_val h0 h z"
      by auto
    with assms(1) a have "extends h0 (h[a := Obj (AList.delete k fs)])"
      by (rule extends_update_cell)
    with HRef Obj show ?thesis by simp
  next
    case (Arr vs ps)
    have "set (AList.delete k ps) \<subseteq> set ps" by (rule set_delete_subset)
    with vals Arr have "\<forall>z \<in> set (cell_vals (Arr vs (AList.delete k ps))). fresh_val h0 h z"
      by auto
    with assms(1) a have "extends h0 (h[a := Arr vs (AList.delete k ps)])"
      by (rule extends_update_cell)
    with HRef Arr show ?thesis by simp
  qed
qed (use assms(1) in auto)

lemma set_prop_fresh:
  assumes "extends h0 h" and "fresh_val h0 h x" and "fresh_val h0 h y"
    and "h_set_prop h x k y = Inr h'"
  shows "extends h0 h' \<and> length h' = length h"
proof (cases x)
  case (HRef a)
  with assms(2) have a: "length h0 \<le> a" "a < length h" by (simp_all add: fresh_val_def)
  with assms(1) have vals: "\<forall>z \<in> set (cell_vals (h ! a)). fresh_val h0 h z"
    by (simp add: extends_def)
  show ?thesis
  proof (cases "h ! a")
    case (Obj fs)
    have "set (AList.update k y fs) \<subseteq> insert (k, y) (set fs)" by (rule set_update_subset)
    with vals Obj assms(3) have "\<forall>z \<in> set (cell_vals (Obj (AList.update k y fs))). fresh_val h0 h z"
      by auto
    with assms(1) a have "extends h0 (h[a := Obj (AList.update k y fs)])"
      by (rule extends_update_cell)
    with HRef Obj assms(4) show ?thesis by auto
  next
    case (Arr vs ps)
    have "set (AList.update k y ps) \<subseteq> insert (k, y) (set ps)" by (rule set_update_subset)
    with vals Arr assms(3)
    have "\<forall>z \<in> set (cell_vals (Arr vs (AList.update k y ps))). fresh_val h0 h z"
      by fastforce
    with assms(1) a have "extends h0 (h[a := Arr vs (AList.update k y ps)])"
      by (rule extends_update_cell)
    with HRef Arr assms(4) show ?thesis by auto
  qed
qed (use assms(4) in auto)

lemma new_object_fresh:
  assumes "extends h0 h" and "\<forall>x \<in> snd ` set fs. fresh_val h0 h x"
    and "h_new_object h fs = (h', r)"
  shows "extends h0 h' \<and> fresh_val h0 h' r"
proof -
  from assms(3) have h': "h' = h @ [Obj fs]" and r: "r = HRef (length h)"
    by (simp_all add: h_new_object_def)
  from assms(2) have "\<forall>x \<in> set (cell_vals (Obj fs)). fresh_val h0 (h @ [Obj fs]) x"
    by (auto intro: fresh_val_mono)
  with assms(1) have "extends h0 (h @ [Obj fs])" by (rule extends_append)
  moreover from assms(1) have "fresh_val h0 (h @ [Obj fs]) (HRef (length h))"
    by (simp add: fresh_val_def extends_def)
  ultimately show ?thesis unfolding h' r by simp
qed

lemma reachable_fresh:
  assumes "extends h0 h" and "fresh_val h0 h r" and "a \<in> reachable h r"
  shows "length h0 \<le> a \<and> a < length h"
  using assms(3)
proof (induction)
  case (root a)
  with assms(2) show ?case by (simp add: fresh_val_def)
next
  case (step a b)
  from step.IH assms(1) step.hyps(3) have "fresh_val h0 h (HRef b)"
    by (simp add: extends_def)
  then show ?case by (simp add: fresh_val_def)
qed

lemma fresh_val_same_length: "length h' = length h \<Longrightarrow> fresh_val h0 h' x = fresh_val h0 h x"
  by (simp add: fresh_val_def)

lemma forStorage_frame:
  assumes run: "h_transformValueForStorage h v = (h', res)"
  shows "extends h h' \<and> (\<forall>r. res = Inr r \<longrightarrow> fresh_val h h' r)"
proof -
  obtain h1 res1 where cl: "h_clone h v = (h1, res1)" by (cases "h_clone h v")
  from clone_fresh [OF cl] have e1: "extends h h1"
    and f1: "\<And>w. res1 = Inr w \<Longrightarrow> fresh_val h h1 w" by simp_all
  show ?thesis
  proof (cases res1)
    case (Inl e)
    with run cl e1 show ?thesis by (auto simp: h_transformValueForStorage_def)
  next
    case (Inr val)
    from f1 [OF Inr] have fv: "fresh_val h h1 val" .
    show ?thesis
    proof (cases "h_get_prop h1 val ''_d''")
      case (Inl e)
      with run cl Inr e1 show ?thesis by (auto simp: h_transformValueForStorage_def)
    next
      case get: (Inr data)
      from get_prop_fresh [OF e1 fv get] have fd: "fresh_val h h1 data" .
      define h2 where "h2 = h_delete_prop h1 val ''_d''"
      from delete_prop_fresh [OF e1 fv] have e2: "extends h h2" unfolding h2_def .
      have l2: "length h2 = length h1" unfolding h2_def by simp
      from fv fd have fv2: "fresh_val h h2 val" and fd2: "fresh_val h h2 data"
        by (simp_all add: fresh_val_same_length [OF l2])
      show ?thesis
      proof (cases "h_instanceof_Array h2 data")
        case True
        obtain h3 r where nw: "h_new_object h2 [(''__dsList'', data), (''__ds'', val)] = (h3, r)"
          by (cases "h_new_object h2 [(''__dsList'', data), (''__ds'', val)]")
        from fv2 fd2 have "\<forall>x \<in> snd ` set [(''__dsList'', data), (''__ds'', val)]. fresh_val h h2 x"
          by simp
        from new_object_fresh [OF e2 this nw] have "extends h h3" "fresh_val h h3 r" by simp_all
        moreover from run cl Inr get True nw have "h' = h3" "res = Inr r"
          by (simp_all add: h_transformValueForStorage_def h2_def [symmetric])
        ultimately show ?thesis by simp
      next
        case False
        show ?thesis
        proof (cases "h_get_prop h2 data ''_rels''")
          case (Inl e)
          with run cl Inr get False e2 show ?thesis
            by (auto simp: h_transformValueForStorage_def h2_def [symmetric])
        next
          case getr: (Inr rels)
          from get_prop_fresh [OF e2 fd2 getr] have fr: "fresh_val h h2 rels" .
          define h3 where "h3 = h_delete_prop h2 data ''_rels''"
          from delete_prop_fresh [OF e2 fd2] have e3: "extends h h3" unfolding h3_def .
          have l3: "length h3 = length h2" unfolding h3_def by simp
          from fv2 fd2 fr have f3: "fresh_val h h3 val" "fresh_val h h3 data" "fresh_val h h3 rels"
            by (simp_all add: fresh_val_same_length [OF l3])
          obtain h4 r where nw:
            "h_new_object h3 [(''_props'', data), (''_rels'', rels), (''__ds'', val)] = (h4, r)"
            by (cases "h_new_object h3 [(''_props'', data), (''_rels'', rels), (''__ds'', val)]")
          from f3 have "\<forall>x \<in> snd ` set [(''_props'', data), (''_rels'', rels), (''__ds'', val)].
                          fresh_val h h3 x" by simp
          from new_object_fresh [OF e3 this nw] have "extends h h4" "fresh_val h h4 r" by simp_all
          moreover from run cl Inr get False getr nw have "h' = h4" "res = Inr r"
            by (simp_all add: h_transformValueForStorage_def h2_def [symmetric] h3_def [symmetric])
          ultimately show ?thesis by simp
        qed
      qed
    qed
  qed
qed

lemma fromStorage_frame:
  assumes run: "h_transformValueFromStorage h v = (h', res)"
  shows "extends h h' \<and> (\<forall>r. res = Inr r \<longrightarrow> fresh_val h h' r)"
proof -
  note def = h_transformValueFromStorage_def
  obtain h1 res1 where cl: "h_clone h v = (h1, res1)" by (cases "h_clone h v")
  from clone_fresh [OF cl] have e1: "extends h h1"
    and f1: "\<And>w. res1 = Inr w \<Longrightarrow> fresh_val h h1 w" by simp_all
  show ?thesis
  proof (cases res1)
    case (Inl e)
    with run cl e1 show ?thesis by (auto simp: def)
  next
    case (Inr val)
    from f1 [OF Inr] have fv: "fresh_val h h1 val" .
    show ?thesis
    proof (cases "h_truthy val")
      case False
      with run cl Inr e1 show ?thesis by (auto simp: def)
    next
      case tv: True
      show ?thesis
      proof (cases "h_get_prop h1 val ''__ds''")
        case (Inl e)
        with run cl Inr tv e1 show ?thesis by (auto simp: def)
      next
        case get: (Inr data)
        from get_prop_fresh [OF e1 fv get] have fd: "fresh_val h h1 data" .
        define h2 where "h2 = h_delete_prop h1 val ''__ds''"
        from delete_prop_fresh [OF e1 fv] have e2: "extends h h2" unfolding h2_def .
        have l2: "length h2 = length h1" unfolding h2_def by simp
        from fv fd have fv2: "fresh_val h h2 val" and fd2: "fresh_val h h2 data"
          by (simp_all add: fresh_val_same_length [OF l2])
        note pre = cl Inr tv get h2_def [symmetric]
        show ?thesis
        proof (cases "h_get_prop h2 val ''__dsList''")
          case (Inl e)
          with run pre e2 show ?thesis by (auto simp: def)
        next
          case getl: (Inr lst)
          from get_prop_fresh [OF e2 fv2 getl] have fl: "fresh_val h h2 lst" .
          show ?thesis
          proof (cases "h_instanceof_Array h2 lst")
            case True
            show ?thesis
            proof (cases "h_set_prop h2 data ''_d'' lst")
              case (Inl e)
              with run pre getl True e2 show ?thesis by (auto simp: def)
            next
              case st: (Inr h3)
              from set_prop_fresh [OF e2 fd2 fl st] have e3: "extends h h3"
                and l3: "length h3 = length h2" by simp_all
              from fd2 have "fresh_val h h3 data" by (simp add: fresh_val_same_length [OF l3])
              moreover from run pre getl True st have "h' = h3" "res = Inr data"
                by (simp_all add: def)
              ultimately show ?thesis using e3 by simp
            qed
          next
            case False
            show ?thesis
            proof (cases "h_get_prop h2 val ''_props''")
              case (Inl e)
              with run pre getl False e2 show ?thesis by (auto simp: def)
            next
              case getp: (Inr props)
              from get_prop_fresh [OF e2 fv2 getp] have fp: "fresh_val h h2 props" .
              show ?thesis
              proof (cases "h_set_prop h2 data ''_d'' props")
                case (Inl e)
                with run pre getl False getp e2 show ?thesis by (auto simp: def)
              next
                case st: (Inr h3)
                from set_prop_fresh [OF e2 fd2 fp st] have e3: "extends h h3"
                  and l3: "length h3 = length h2" by simp_all
                from fv2 fd2 have fv3: "fresh_val h h3 val" and fd3: "fresh_val h h3 data"
                  by (simp_all add: fresh_val_same_length [OF l3])
                note pre3 = pre getl False getp st
                show ?thesis
                proof (cases "h_truthy props")
                  case False
                  from delete_prop_fresh [OF e3 fv3]
                  have "extends h (h_delete_prop h3 val ''_rels'')" .
                  moreover from fd3 have "fresh_val h (h_delete_prop h3 val ''_rels'') data"
                    by (simp add: fresh_val_def)
                  moreover from run pre3 False
                  have "h' = h_delete_prop h3 val ''_rels''" "res = Inr data"
                    by (simp_all add: def)
                  ultimately show ?thesis by simp
                next
                  case tp: True
                  show ?thesis
                  proof (cases "h_get_prop h3 data ''_d''")
                    case (Inl e)
                    with run pre3 tp e3 show ?thesis by (auto simp: def)
                  next
                    case gett: (Inr target)
                    from get_prop_fresh [OF e3 fd3 gett] have ft: "fresh_val h h3 target" .
                    show ?thesis
                    proof (cases "h_get_prop h3 val ''_rels''")
                      case (Inl e)
                      with run pre3 tp gett e3 show ?thesis by (auto simp: def)
                    next
                      case getr: (Inr rels)
                      from get_prop_fresh [OF e3 fv3 getr] have fr: "fresh_val h h3 rels" .
                      show ?thesis
                      proof (cases "h_set_prop h3 target ''_rels'' rels")
                        case (Inl e)
                        with run pre3 tp gett getr e3 show ?thesis by (auto simp: def)
                      next
                        case st4: (Inr h4)
                        from set_prop_fresh [OF e3 ft fr st4] have e4: "extends h h4"
                          and l4: "length h4 = length h3" by simp_all
                        from fv3 fd3 have fv4: "fresh_val h h4 val" and fd4: "fresh_val h h4 data"
                          by (simp_all add: fresh_val_same_length [OF l4])
                        from delete_prop_fresh [OF e4 fv4]
                        have "extends h (h_delete_prop h4 val ''_rels'')" .
                        moreover from fd4 have "fresh_val h (h_delete_prop h4 val ''_rels'') data"
                          by (simp add: fresh_val_def)
                        moreover from run pre3 tp gett getr st4
                        have "h' = h_delete_prop h4 val ''_rels''" "res = Inr data"
                          by (simp_all add: def)
                        ultimately show ?thesis by simp
                      qed
                    qed
                  qed
                qed
              qed
            qed
          qed
        qed
      qed
    qed
  qed
qed

lemma those_map_mono:
  "(\<And>x y. x \<in> set xs \<Longrightarrow> f x = Some y \<Longrightarrow> g x = Some y) \<Longrightarrow>
   those (map f xs) = Some ys \<Longrightarrow> those (map g xs) = Some ys"
proof (induction xs arbitrary: ys)
  case Nil
  then show ?case by simp
next
  case (Cons x xs)
  from Cons.prems(2) obtain y zs where fx: "f x = Some y" and rest: "those (map f xs) = Some zs"
    and ys: "ys = y # zs"
    by (auto split: option.splits)
  from Cons.prems(1) [OF _ fx] have gx: "g x = Some y" by simp
  from Cons.IH [OF Cons.prems(1) rest] have "those (map g xs) = Some zs" by simp
  with gx ys show ?case by simp
qed

lemma read_heap_extends:
  assumes len: "length h \<le> length h'" and tk: "take (length h) h' = h"
  shows "read_heap n h v = Some t \<Longrightarrow> read_heap n h' v = Some t"
proof (induction n arbitrary: v t)
  case 0
  then show ?case by (cases v) simp_all
next
  case (Suc n)
  show ?case
  proof (cases v)
    case (HRef a)
    with Suc.prems have a: "a < length h" by (simp split: if_splits)
    with len have a': "a < length h'" by simp
    from a tk have same: "h' ! a = h ! a" by (metis nth_take)
    show ?thesis
    proof (cases "h ! a")
      case (Arr vs ps)
      with Suc.prems HRef a obtain ts where ts: "those (map (read_heap n h) vs) = Some ts"
        and t: "t = JArr ts []" by auto
      from ts have "those (map (read_heap n h') vs) = Some ts"
        by (rule those_map_mono [rotated]) (rule Suc.IH)
      with HRef a' same Arr t show ?thesis by simp
    next
      case (Obj fs)
      with Suc.prems HRef a obtain gs
        where gs: "those (map (\<lambda>(k, v). map_option (Pair k) (read_heap n h v)) fs) = Some gs"
        and t: "t = JObj gs" by auto
      from gs have "those (map (\<lambda>(k, v). map_option (Pair k) (read_heap n h' v)) fs) = Some gs"
      proof (rule those_map_mono [rotated])
        fix x y
        assume "(case x of (k, v) \<Rightarrow> map_option (Pair k) (read_heap n h v)) = Some y"
        then show "(case x of (k, v) \<Rightarrow> map_option (Pair k) (read_heap n h' v)) = Some y"
          by (cases x) (auto dest: Suc.IH)
      qed
      with HRef a' same Obj t show ?thesis by simp
    qed
  qed (use Suc.prems in simp_all)
qed

lemma run_forStorage_test_heap:
  "h_transformValueForStorage test_heap (HRef 1) = (heap_after, Inr (HRef 6))"
  by code_simp

lemma run_fromStorage_stored_heap:
  "h_transformValueFromStorage stored_heap (HRef 2) = (stored_heap_after, Inr (HRef 4))"
  by code_simp

lemma run_fromStorage_array_meta_heap:
  "h_transformValueFromStorage array_meta_heap (HRef 2) = (array_meta_heap_after, Inr (HRef 4))"
  by code_simp

text \<open>
  C8. Neither transform changes a cell that existed when it was called: the heap it leaves,
  whether it returns or throws, starts with the caller's heap, cell for cell, so whatever
  the argument read as before the call it reads as after it. And every cell the returned
  value leads to was created during the call: the result shares no object or array with
  the argument, nor with anything else the caller holds.
\<close>

theorem transforms_leave_argument_alone:
  assumes "h_transformValueForStorage h v = (h', res) \<or>
           h_transformValueFromStorage h v = (h', res)"
  shows "length h \<le> length h' \<and> take (length h) h' = h \<and>
         (\<forall>n t. read_heap n h v = Some t \<longrightarrow> read_heap n h' v = Some t) \<and>
         (\<forall>r. res = Inr r \<longrightarrow> reachable h' r \<subseteq> {length h..<length h'})"
proof -
  from assms have fr: "extends h h' \<and> (\<forall>r. res = Inr r \<longrightarrow> fresh_val h h' r)"
    using forStorage_frame fromStorage_frame by blast
  then have e: "extends h h'" by simp
  then have len: "length h \<le> length h'" and tk: "take (length h) h' = h"
    by (simp_all add: extends_def)
  have rd: "\<forall>n t. read_heap n h v = Some t \<longrightarrow> read_heap n h' v = Some t"
    using read_heap_extends [OF len tk] by blast
  have "\<forall>r. res = Inr r \<longrightarrow> reachable h' r \<subseteq> {length h..<length h'}"
  proof (intro allI impI subsetI)
    fix r a assume "res = Inr r" and a: "a \<in> reachable h' r"
    with fr have "fresh_val h h' r" by simp
    from reachable_fresh [OF e this a] show "a \<in> {length h..<length h'}" by simp
  qed
  with len tk rd show ?thesis by simp
qed

theorem transforms_leave_argument_alone_witness:
  "h_transformValueForStorage test_heap (HRef 1) = (heap_after, Inr (HRef 6)) \<and>
   take (length test_heap) heap_after = test_heap \<and>
   reachable heap_after (HRef 6) \<subseteq> {4..<7} \<and>
   h_transformValueFromStorage stored_heap (HRef 2) = (stored_heap_after, Inr (HRef 4)) \<and>
   take (length stored_heap) stored_heap_after = stored_heap \<and>
   reachable stored_heap_after (HRef 4) \<subseteq> {3..<6} \<and>
   h_transformValueFromStorage array_meta_heap (HRef 2) = (array_meta_heap_after, Inr (HRef 4)) \<and>
   take (length array_meta_heap) array_meta_heap_after = array_meta_heap \<and>
   reachable array_meta_heap_after (HRef 4) \<subseteq> {3..<6}"
proof -
  have l: "length test_heap = 4" "length heap_after = 7"
    "length stored_heap = 3" "length stored_heap_after = 6"
    "length array_meta_heap = 3" "length array_meta_heap_after = 6"
    by (simp_all add: test_heap_def heap_after_def stored_heap_def stored_heap_after_def
        array_meta_heap_def array_meta_heap_after_def)
  note a = run_forStorage_test_heap
  note b = run_fromStorage_stored_heap
  note c = run_fromStorage_array_meta_heap
  from transforms_leave_argument_alone [of test_heap "HRef 1" heap_after "Inr (HRef 6)"] a
  have 1: "take (length test_heap) heap_after = test_heap \<and>
           reachable heap_after (HRef 6) \<subseteq> {4..<7}"
    unfolding l by blast
  from transforms_leave_argument_alone [of stored_heap "HRef 2" stored_heap_after "Inr (HRef 4)"] b
  have 2: "take (length stored_heap) stored_heap_after = stored_heap \<and>
           reachable stored_heap_after (HRef 4) \<subseteq> {3..<6}"
    unfolding l by blast
  from transforms_leave_argument_alone
         [of array_meta_heap "HRef 2" array_meta_heap_after "Inr (HRef 4)"] c
  have 3: "take (length array_meta_heap) array_meta_heap_after = array_meta_heap \<and>
           reachable array_meta_heap_after (HRef 4) \<subseteq> {3..<6}"
    unfolding l by blast
  from a b c 1 2 3 show ?thesis by blast
qed

end
